theory Spec2Isabelle
  imports Main "HOL-Library.Word"
begin

unbundle bit_operations_syntax

section \<open>libkern.c: everything that touches the kernel\<close>

subsection \<open>Types and constants of the Mach headers\<close>

text \<open>
  The scalar types of \<^verbatim>\<open>libkern.c\<close>, for a 64-bit target: \<^verbatim>\<open>kern_return_t\<close> and
  \<^verbatim>\<open>vm_prot_t\<close> are \<^verbatim>\<open>int\<close>, a port name is an \<^verbatim>\<open>unsigned int\<close>, addresses and sizes are
  unsigned 64-bit integers whose arithmetic wraps.
\<close>

type_synonym kern_return_t = "32 word"
type_synonym mach_port_t = "32 word"
type_synonym task_t = "32 word"
type_synonym vm_prot_t = "32 word"
type_synonym vm_address_t = "64 word"
type_synonym vm_size_t = "64 word"
type_synonym byte = "8 word"

definition KERN_SUCCESS :: kern_return_t where
  "KERN_SUCCESS = 0"

definition KERN_FAILURE :: kern_return_t where
  "KERN_FAILURE = 5"

definition MACH_PORT_NULL :: mach_port_t where
  "MACH_PORT_NULL = 0"

definition MACH_PORT_DEAD :: mach_port_t where
  "MACH_PORT_DEAD = NOT 0"

definition MACH_PORT_VALID :: "mach_port_t \<Rightarrow> bool" where
  "MACH_PORT_VALID name \<longleftrightarrow> name \<noteq> MACH_PORT_NULL \<and> name \<noteq> MACH_PORT_DEAD"

definition VM_PROT_READ :: vm_prot_t where
  "VM_PROT_READ = 1"

definition VM_PROT_WRITE :: vm_prot_t where
  "VM_PROT_WRITE = 2"

definition VM_PROT_EXECUTE :: vm_prot_t where
  "VM_PROT_EXECUTE = 4"

definition MH_EXECUTE :: "32 word" where
  "MH_EXECUTE = 2"

definition MAX_CHUNK_SIZE :: vm_size_t where
  "MAX_CHUNK_SIZE = 0xFFF"

subsection \<open>The collaborators\<close>

text \<open>
  Every call into the kernel is recorded, with its arguments and its answer, in a log
  that is part of the program state. The kernel is a record of functions that answer a
  call from the log of the calls made before it and the arguments of the call, so that
  two calls with equal arguments may be answered differently.

  The out-parameters of a call are part of its answer: \<^verbatim>\<open>task_for_pid\<close> and
  \<^verbatim>\<open>host_get_special_port\<close> answer with the status and the port name left in
  \<^verbatim>\<open>kernel_task\<close>; \<^verbatim>\<open>vm_region_recurse_64\<close> with the status, the address and size of the
  region and \<^verbatim>\<open>info.protection\<close> (its in-out arguments \<^verbatim>\<open>depth\<close> and \<^verbatim>\<open>info_count\<close> are
  determined by the earlier answers, which the log holds); \<^verbatim>\<open>vm_read_overwrite\<close> with
  the status and the bytes it has put into the destination, whose number is the size it
  reports; \<^verbatim>\<open>vm_write\<close> with the status. \<^verbatim>\<open>malloc\<close> answers with no block, or with the
  indeterminate bytes the fresh block holds. In the same way \<^verbatim>\<open>stack\<close> answers with the
  indeterminate bytes that the automatic variables \<^verbatim>\<open>hdr1\<close> and \<^verbatim>\<open>hdr2\<close> of
  \<^verbatim>\<open>get_kernel_base\<close> hold when they are declared.
\<close>

datatype call =
    Task_for_pid kern_return_t mach_port_t
  | Host_get_special_port kern_return_t mach_port_t
  | Vm_region_recurse_64 task_t vm_address_t kern_return_t vm_address_t vm_size_t vm_prot_t
  | Vm_read_overwrite task_t vm_address_t vm_size_t kern_return_t "byte list"
  | Vm_write task_t vm_address_t "byte list" vm_size_t kern_return_t

record kernel =
  task_for_pid :: "call list \<Rightarrow> kern_return_t \<times> mach_port_t"
  host_get_special_port :: "call list \<Rightarrow> kern_return_t \<times> mach_port_t"
  vm_region_recurse_64 ::
    "call list \<Rightarrow> task_t \<Rightarrow> vm_address_t \<Rightarrow> kern_return_t \<times> vm_address_t \<times> vm_size_t \<times> vm_prot_t"
  vm_read_overwrite :: "call list \<Rightarrow> task_t \<Rightarrow> vm_address_t \<Rightarrow> vm_size_t \<Rightarrow> kern_return_t \<times> byte list"
  vm_write :: "call list \<Rightarrow> task_t \<Rightarrow> vm_address_t \<Rightarrow> byte list \<Rightarrow> vm_size_t \<Rightarrow> kern_return_t"
  malloc :: "call list \<Rightarrow> vm_size_t \<Rightarrow> byte list option"
  stack :: "call list \<Rightarrow> byte list \<times> byte list"

text \<open>
  A buffer is the list of its bytes. \<^verbatim>\<open>store buf off data\<close> is the buffer after \<^verbatim>\<open>data\<close>
  has been put at \<^verbatim>\<open>buf + off\<close>: the bytes of the buffer before and after the place of
  \<^verbatim>\<open>data\<close> stay.
\<close>

definition store :: "byte list \<Rightarrow> nat \<Rightarrow> byte list \<Rightarrow> byte list" where
  "store buf off data = take off buf @ data @ drop (off + length data) buf"

subsection \<open>The static variables\<close>

text \<open>
  \<^verbatim>\<open>get_kernel_task\<close> keeps \<^verbatim>\<open>kernel_task\<close> and \<^verbatim>\<open>initialized\<close>, \<^verbatim>\<open>get_kernel_base\<close> keeps
  \<^verbatim>\<open>addr\<close> and its own \<^verbatim>\<open>initialized\<close>. \<^verbatim>\<open>addr\<close> is also the variable of the loop over the
  regions, so a failed search leaves its last value there.
\<close>

record state =
  kernel_task :: task_t
  task_initialized :: bool
  addr :: vm_address_t
  base_initialized :: bool
  calls :: "call list"

definition initial_state :: state where
  "initial_state =
     \<lparr>kernel_task = MACH_PORT_NULL, task_initialized = False, addr = 0,
      base_initialized = False, calls = []\<rparr>"

subsection \<open>\<^verbatim>\<open>VERIFY_PORT\<close> and \<^verbatim>\<open>get_kernel_task\<close>\<close>

text \<open>The macro assigns to \<^verbatim>\<open>ret\<close>; the function returns the value \<^verbatim>\<open>ret\<close> has after it.\<close>

definition VERIFY_PORT :: "mach_port_t \<Rightarrow> kern_return_t \<Rightarrow> kern_return_t" where
  "VERIFY_PORT port ret =
     (if MACH_PORT_VALID port then
        (if ret = KERN_SUCCESS then ret else KERN_SUCCESS)
      else
        (if ret = KERN_SUCCESS then KERN_FAILURE else ret))"

definition call_task_for_pid :: "kernel \<Rightarrow> state \<Rightarrow> kern_return_t \<times> state" where
  "call_task_for_pid k s =
     (case task_for_pid k (calls s) of (ret, port) \<Rightarrow>
        (ret, s\<lparr>kernel_task := port, calls := calls s @ [Task_for_pid ret port]\<rparr>))"

definition call_host_get_special_port :: "kernel \<Rightarrow> state \<Rightarrow> kern_return_t \<times> state" where
  "call_host_get_special_port k s =
     (case host_get_special_port k (calls s) of (ret, port) \<Rightarrow>
        (ret, s\<lparr>kernel_task := port, calls := calls s @ [Host_get_special_port ret port]\<rparr>))"

text \<open>
  \<^verbatim>\<open>Inl ret\<close> is the \<^verbatim>\<open>return ret\<close> of the failure path, which leaves \<^verbatim>\<open>*task\<close> as it was;
  \<^verbatim>\<open>Inr t\<close> is \<^verbatim>\<open>*task = t; return KERN_SUCCESS\<close>.
\<close>

definition get_kernel_task :: "kernel \<Rightarrow> state \<Rightarrow> (kern_return_t + task_t) \<times> state" where
  "get_kernel_task k s =
     (if task_initialized s then (Inr (kernel_task s), s)
      else
        (case call_task_for_pid k s of (ret0, s1) \<Rightarrow>
           (case (let ret1 = VERIFY_PORT (kernel_task s1) ret0 in
                  if ret1 \<noteq> KERN_SUCCESS then
                    (case call_host_get_special_port k s1 of (ret2, s2) \<Rightarrow>
                       (VERIFY_PORT (kernel_task s2) ret2, s2))
                  else (ret1, s1))
            of (ret, s3) \<Rightarrow>
              if ret \<noteq> KERN_SUCCESS then (Inl ret, s3)
              else (Inr (kernel_task s3), s3\<lparr>task_initialized := True\<rparr>))))"

subsection \<open>The constants and the header type of \<^verbatim>\<open>arch.h\<close>\<close>

text \<open>
  \<^verbatim>\<open>arch.h\<close> is not part of the sources at hand. Its constants, the size of its header
  type and the reading of the bytes of such a header as its fields are parameters of the
  model. Of the fields of a Mach-O header the code reads three.
\<close>

record mach_hdr_t =
  magic :: "32 word"
  cputype :: "32 word"
  filetype :: "32 word"

record arch =
  IMAGE_OFFSET :: vm_address_t
  MACH_TYPE :: "32 word"
  MACH_HEADER_MAGIC :: "32 word"
  sizeof_mach_hdr_t :: vm_size_t
  mach_hdr_of :: "byte list \<Rightarrow> mach_hdr_t"

subsection \<open>\<^verbatim>\<open>get_kernel_base\<close>\<close>

definition call_vm_region_recurse_64 ::
  "kernel \<Rightarrow> task_t \<Rightarrow> state \<Rightarrow> (kern_return_t \<times> vm_size_t \<times> vm_prot_t) \<times> state" where
  "call_vm_region_recurse_64 k task s =
     (case vm_region_recurse_64 k (calls s) task (addr s) of (ret, a, size', prot) \<Rightarrow>
        ((ret, size', prot),
         s\<lparr>addr := a, calls := calls s @ [Vm_region_recurse_64 task (addr s) ret a size' prot]\<rparr>))"

definition call_vm_read_overwrite ::
  "kernel \<Rightarrow> task_t \<Rightarrow> vm_address_t \<Rightarrow> vm_size_t \<Rightarrow> state \<Rightarrow> (kern_return_t \<times> byte list) \<times> state" where
  "call_vm_read_overwrite k task a size' s =
     (case vm_read_overwrite k (calls s) task a size' of (ret, data) \<Rightarrow>
        ((ret, data), s\<lparr>calls := calls s @ [Vm_read_overwrite task a size' ret data]\<rparr>))"

text \<open>The test on a region: more than a gigabyte, and none of the three protection bits.\<close>

definition kernel_region :: "vm_size_t \<Rightarrow> vm_prot_t \<Rightarrow> bool" where
  "kernel_region size' prot \<longleftrightarrow>
     size' > 1024 * 1024 * 1024 \<and> prot AND (VM_PROT_READ OR VM_PROT_WRITE OR VM_PROT_EXECUTE) = 0"

text \<open>Leaving the \<^verbatim>\<open>while\<close> loop by its \<^verbatim>\<open>break\<close>: the address is cached and returned.\<close>

definition got_kernel_base :: "state \<Rightarrow> vm_address_t \<times> state" where
  "got_kernel_base s = (addr s, s\<lparr>base_initialized := True\<rparr>)"

text \<open>
  The \<^verbatim>\<open>while(true)\<close> loop over the candidate offsets. \<^verbatim>\<open>hdr1\<close> and \<^verbatim>\<open>hdr2\<close> are declared
  before the loop, so they are variables of it: they are the bytes of the two
  structures, a transfer overwrites as many of them as it has read, and the fields
  the tests read are those of the bytes then held, whichever pass has put them there.
  \<^verbatim>\<open>None\<close> is a loop that never ends; a first component 0 with \<^verbatim>\<open>base_initialized\<close>
  unchanged is one of the \<^verbatim>\<open>return 0\<close>.
\<close>

partial_function (option) header_loop ::
  "arch \<Rightarrow> kernel \<Rightarrow> task_t \<Rightarrow> byte list \<Rightarrow> byte list \<Rightarrow> state
     \<Rightarrow> (vm_address_t \<times> state) option" where
  "header_loop ar k task hdr1 hdr2 s =
     (case call_vm_read_overwrite k task (addr s + IMAGE_OFFSET ar) (sizeof_mach_hdr_t ar) s of
        ((ret1, data1), s1) \<Rightarrow>
          if ret1 \<noteq> KERN_SUCCESS then Some (0, s1)
          else
            (case call_vm_read_overwrite k task (addr s1 + 2 * IMAGE_OFFSET ar)
                    (sizeof_mach_hdr_t ar) s1 of
               ((ret2, data2), s2) \<Rightarrow>
                 let hdr1' = store hdr1 0 data1; hdr2' = store hdr2 0 data2;
                     h1 = mach_hdr_of ar hdr1'; h2 = mach_hdr_of ar hdr2'
                 in
                 if ret2 \<noteq> KERN_SUCCESS then
                   (if magic h1 = MACH_HEADER_MAGIC ar
                    then Some (got_kernel_base (s2\<lparr>addr := addr s2 + IMAGE_OFFSET ar\<rparr>))
                    else Some (0, s2))
                 else
                   (let b1 = (magic h1 = MACH_HEADER_MAGIC ar);
                        b2 = (magic h2 = MACH_HEADER_MAGIC ar);
                        both = (b1 \<and> b2);
                        b1 = (if both
                              then cputype h1 = MACH_TYPE ar \<and> filetype h1 = MH_EXECUTE
                              else b1);
                        b2 = (if both
                              then cputype h2 = MACH_TYPE ar \<and> filetype h2 = MH_EXECUTE
                              else b2)
                    in
                      if both \<and> b1 \<and> b2 then Some (0, s2)
                      else if b1
                        then Some (got_kernel_base (s2\<lparr>addr := addr s2 + IMAGE_OFFSET ar\<rparr>))
                      else if b2
                        then Some (got_kernel_base (s2\<lparr>addr := addr s2 + 2 * IMAGE_OFFSET ar\<rparr>))
                      else header_loop ar k task hdr1' hdr2' (s2\<lparr>addr := addr s2 + 0x100000\<rparr>))))"

declare header_loop.simps [code]

text \<open>
  The \<^verbatim>\<open>for\<close> loop over the regions, from the value of \<^verbatim>\<open>addr\<close> in the state. The block of
  a region that passes the test declares \<^verbatim>\<open>hdr1\<close> and \<^verbatim>\<open>hdr2\<close> and gives them no value.
\<close>

partial_function (option) region_loop ::
  "arch \<Rightarrow> kernel \<Rightarrow> task_t \<Rightarrow> state \<Rightarrow> (vm_address_t \<times> state) option" where
  "region_loop ar k task s =
     (case call_vm_region_recurse_64 k task s of
        ((ret, size', prot), s1) \<Rightarrow>
          if ret \<noteq> KERN_SUCCESS then Some (0, s1)
          else if kernel_region size' prot then
            (case stack k (calls s1) of (hdr1, hdr2) \<Rightarrow> header_loop ar k task hdr1 hdr2 s1)
          else region_loop ar k task (s1\<lparr>addr := addr s1 + size'\<rparr>))"

declare region_loop.simps [code]

definition get_kernel_base :: "arch \<Rightarrow> kernel \<Rightarrow> state \<Rightarrow> (vm_address_t \<times> state) option" where
  "get_kernel_base ar k s =
     (if base_initialized s then Some (addr s, s)
      else
        (case get_kernel_task k s of
           (Inl ret, s1) \<Rightarrow> Some (0, s1)
         | (Inr task, s1) \<Rightarrow> region_loop ar k task (s1\<lparr>addr := 0\<rparr>)))"

subsection \<open>\<^verbatim>\<open>read_kernel\<close> and \<^verbatim>\<open>write_kernel\<close>\<close>

text \<open>
  The loop of \<^verbatim>\<open>read_kernel\<close>. The call overwrites \<^verbatim>\<open>size\<close> with the number of bytes it
  has read, so the three counters move by that number. The result is \<^verbatim>\<open>bytes_read\<close>, the
  buffer and the state; \<^verbatim>\<open>None\<close> is a loop that never ends.
\<close>

partial_function (option) read_loop ::
  "kernel \<Rightarrow> task_t \<Rightarrow> vm_address_t \<Rightarrow> vm_address_t \<Rightarrow> vm_size_t \<Rightarrow> vm_size_t \<Rightarrow> byte list \<Rightarrow> state
     \<Rightarrow> (vm_size_t \<times> byte list \<times> state) option" where
  "read_loop k task end_addr a remainder bytes_read buf s =
     (if a < end_addr then
        (let size' = (if remainder > MAX_CHUNK_SIZE then MAX_CHUNK_SIZE else remainder) in
           case call_vm_read_overwrite k task a size' s of
             ((ret, data), s1) \<Rightarrow>
               let buf1 = store buf (unat bytes_read) data;
                   size' = (of_nat (length data) :: vm_size_t)
               in
                 if ret \<noteq> KERN_SUCCESS \<or> size' = 0 then Some (bytes_read, buf1, s1)
                 else read_loop k task end_addr (a + size') (remainder - size')
                        (bytes_read + size') buf1 s1)
      else Some (bytes_read, buf, s))"

declare read_loop.simps [code]

definition read_kernel ::
  "kernel \<Rightarrow> vm_address_t \<Rightarrow> vm_size_t \<Rightarrow> byte list \<Rightarrow> state
     \<Rightarrow> (vm_size_t \<times> byte list \<times> state) option" where
  "read_kernel k a size' buf s =
     (case get_kernel_task k s of
        (Inl ret, s1) \<Rightarrow> Some (- 1, buf, s1)
      | (Inr task, s1) \<Rightarrow> read_loop k task (a + size') a size' 0 buf s1)"

definition call_vm_write ::
  "kernel \<Rightarrow> task_t \<Rightarrow> vm_address_t \<Rightarrow> byte list \<Rightarrow> vm_size_t \<Rightarrow> state \<Rightarrow> kern_return_t \<times> state" where
  "call_vm_write k task a data size' s =
     (let ret = vm_write k (calls s) task a data size' in
        (ret, s\<lparr>calls := calls s @ [Vm_write task a data size' ret]\<rparr>))"

text \<open>The loop of \<^verbatim>\<open>write_kernel\<close>; the chunk handed over starts at \<^verbatim>\<open>data + bytes_written\<close>.\<close>

partial_function (option) write_loop ::
  "kernel \<Rightarrow> task_t \<Rightarrow> vm_address_t \<Rightarrow> vm_address_t \<Rightarrow> vm_size_t \<Rightarrow> vm_size_t \<Rightarrow> byte list \<Rightarrow> state
     \<Rightarrow> (vm_size_t \<times> state) option" where
  "write_loop k task end_addr a remainder bytes_written data s =
     (if a < end_addr then
        (let size' = (if remainder > MAX_CHUNK_SIZE then MAX_CHUNK_SIZE else remainder) in
           case call_vm_write k task a (take (unat size') (drop (unat bytes_written) data)) size' s of
             (ret, s1) \<Rightarrow>
               if ret \<noteq> KERN_SUCCESS then Some (bytes_written, s1)
               else write_loop k task end_addr (a + size') (remainder - size')
                      (bytes_written + size') data s1)
      else Some (bytes_written, s))"

declare write_loop.simps [code]

definition write_kernel ::
  "kernel \<Rightarrow> vm_address_t \<Rightarrow> byte list \<Rightarrow> vm_size_t \<Rightarrow> state \<Rightarrow> (vm_size_t \<times> state) option" where
  "write_kernel k a data size' s =
     (case get_kernel_task k s of
        (Inl ret, s1) \<Rightarrow> Some (- 1, s1)
      | (Inr task, s1) \<Rightarrow> write_loop k task (a + size') a size' 0 data s1)"

subsection \<open>\<^verbatim>\<open>find_bytes_kern\<close>\<close>

text \<open>
  \<^verbatim>\<open>memmem\<close> of the C library, as its manual page on the target system describes it: no
  result when either length is 0 or the pattern is longer than the buffer; otherwise the
  first position at which the pattern starts, as an offset into the buffer.
\<close>

primrec first_match :: "byte list \<Rightarrow> byte list \<Rightarrow> nat option" where
  "first_match [] little = None"
| "first_match (b # big) little =
     (if take (length little) (b # big) = little then Some 0
      else map_option Suc (first_match big little))"

definition memmem :: "byte list \<Rightarrow> byte list \<Rightarrow> nat option" where
  "memmem big little =
     (if big = [] \<or> little = [] then None
      else if length big < length little then None
      else first_match big little)"

text \<open>
  The pattern is the list \<^verbatim>\<open>bytes\<close>, whose length is the argument \<^verbatim>\<open>length\<close> of the C
  function. The buffer is as long as \<^verbatim>\<open>end - start\<close> says.
\<close>

definition find_bytes_kern ::
  "kernel \<Rightarrow> vm_address_t \<Rightarrow> vm_address_t \<Rightarrow> byte list \<Rightarrow> state \<Rightarrow> (vm_address_t \<times> state) option" where
  "find_bytes_kern k start end_addr bytes s =
     (case malloc k (calls s) (end_addr - start) of
        None \<Rightarrow> Some (0, s)
      | Some buf \<Rightarrow>
          (case read_kernel k start (end_addr - start) buf s of
             None \<Rightarrow> None
           | Some (n, buf1, s1) \<Rightarrow>
               if n \<noteq> 0 then
                 (case memmem (take (unat (end_addr - start)) buf1) bytes of
                    Some off \<Rightarrow> Some (of_nat off + start, s1)
                  | None \<Rightarrow> Some (0, s1))
               else Some (0, s1)))"

subsection \<open>Reading the log, and the first iterations of a loop\<close>

text \<open>The bytes a logged call has moved, and the size a logged transfer was asked for.\<close>

fun moved :: "call \<Rightarrow> vm_size_t" where
  "moved (Vm_read_overwrite task a size' ret data) =
     (if ret = KERN_SUCCESS then of_nat (length data) else 0)"
| "moved (Vm_write task a data size' ret) = (if ret = KERN_SUCCESS then size' else 0)"
| "moved c = 0"

fun chunk :: "call \<Rightarrow> vm_size_t option" where
  "chunk (Vm_read_overwrite task a size' ret data) = Some size'"
| "chunk (Vm_write task a data size' ret) = Some size'"
| "chunk c = None"

text \<open>
  \<^verbatim>\<open>skip_regions n\<close> runs the first \<^verbatim>\<open>n\<close> iterations of the loop over the regions when
  each of them finds a region that fails the test, and gives the state in which the next
  iteration starts.
\<close>

primrec skip_regions :: "nat \<Rightarrow> kernel \<Rightarrow> task_t \<Rightarrow> state \<Rightarrow> state option" where
  "skip_regions 0 k task s = Some s"
| "skip_regions (Suc n) k task s =
     (case call_vm_region_recurse_64 k task s of
        ((ret, size', prot), s1) \<Rightarrow>
          if ret = KERN_SUCCESS \<and> \<not> kernel_region size' prot
          then skip_regions n k task (s1\<lparr>addr := addr s1 + size'\<rparr>)
          else None)"

text \<open>
  \<^verbatim>\<open>skip_strides m\<close> runs the first \<^verbatim>\<open>m\<close> passes of the loop over the candidate offsets
  when each of them reads both headers and finds the expected magic number in neither,
  and gives the bytes of \<^verbatim>\<open>hdr1\<close> and \<^verbatim>\<open>hdr2\<close> and the state with which the next pass starts.
\<close>

primrec skip_strides ::
  "nat \<Rightarrow> arch \<Rightarrow> kernel \<Rightarrow> task_t \<Rightarrow> byte list \<Rightarrow> byte list \<Rightarrow> state
     \<Rightarrow> (byte list \<times> byte list \<times> state) option" where
  "skip_strides 0 ar k task hdr1 hdr2 s = Some (hdr1, hdr2, s)"
| "skip_strides (Suc m) ar k task hdr1 hdr2 s =
     (case call_vm_read_overwrite k task (addr s + IMAGE_OFFSET ar) (sizeof_mach_hdr_t ar) s of
        ((ret1, data1), s1) \<Rightarrow>
          (case call_vm_read_overwrite k task (addr s1 + 2 * IMAGE_OFFSET ar)
                  (sizeof_mach_hdr_t ar) s1 of
             ((ret2, data2), s2) \<Rightarrow>
               let hdr1' = store hdr1 0 data1; hdr2' = store hdr2 0 data2 in
               if ret1 = KERN_SUCCESS \<and> ret2 = KERN_SUCCESS \<and>
                  magic (mach_hdr_of ar hdr1') \<noteq> MACH_HEADER_MAGIC ar \<and>
                  magic (mach_hdr_of ar hdr2') \<noteq> MACH_HEADER_MAGIC ar
               then skip_strides m ar k task hdr1' hdr2' (s2\<lparr>addr := addr s2 + 0x100000\<rparr>)
               else None))"

text \<open>
  \<^verbatim>\<open>read_chunks n\<close> and \<^verbatim>\<open>write_chunks n\<close> run the first \<^verbatim>\<open>n\<close> iterations of the loops
  of \<^verbatim>\<open>read_kernel\<close> and \<^verbatim>\<open>write_kernel\<close> when none of them leaves the loop, and give the
  variables with which the next iteration starts.
\<close>

primrec read_chunks ::
  "nat \<Rightarrow> kernel \<Rightarrow> task_t \<Rightarrow> vm_address_t \<Rightarrow> vm_address_t \<Rightarrow> vm_size_t \<Rightarrow> vm_size_t \<Rightarrow> byte list
     \<Rightarrow> state \<Rightarrow> (vm_address_t \<times> vm_size_t \<times> vm_size_t \<times> byte list \<times> state) option" where
  "read_chunks 0 k task end_addr a remainder bytes_read buf s =
     Some (a, remainder, bytes_read, buf, s)"
| "read_chunks (Suc n) k task end_addr a remainder bytes_read buf s =
     (if a < end_addr then
        (let size' = (if remainder > MAX_CHUNK_SIZE then MAX_CHUNK_SIZE else remainder) in
           case call_vm_read_overwrite k task a size' s of
             ((ret, data), s1) \<Rightarrow>
               let buf1 = store buf (unat bytes_read) data;
                   size' = (of_nat (length data) :: vm_size_t)
               in
                 if ret \<noteq> KERN_SUCCESS \<or> size' = 0 then None
                 else read_chunks n k task end_addr (a + size') (remainder - size')
                        (bytes_read + size') buf1 s1)
      else None)"

primrec write_chunks ::
  "nat \<Rightarrow> kernel \<Rightarrow> task_t \<Rightarrow> vm_address_t \<Rightarrow> vm_address_t \<Rightarrow> vm_size_t \<Rightarrow> vm_size_t \<Rightarrow> byte list
     \<Rightarrow> state \<Rightarrow> (vm_address_t \<times> vm_size_t \<times> vm_size_t \<times> state) option" where
  "write_chunks 0 k task end_addr a remainder bytes_written data s =
     Some (a, remainder, bytes_written, s)"
| "write_chunks (Suc n) k task end_addr a remainder bytes_written data s =
     (if a < end_addr then
        (let size' = (if remainder > MAX_CHUNK_SIZE then MAX_CHUNK_SIZE else remainder) in
           case call_vm_write k task a (take (unat size') (drop (unat bytes_written) data)) size' s of
             (ret, s1) \<Rightarrow>
               if ret \<noteq> KERN_SUCCESS then None
               else write_chunks n k task end_addr (a + size') (remainder - size')
                      (bytes_written + size') data s1)
      else None)"

text \<open>
  The pattern starts at offset \<^verbatim>\<open>i\<close> of the buffer. A pattern has at least one byte.
\<close>

definition occurs_at :: "byte list \<Rightarrow> byte list \<Rightarrow> nat \<Rightarrow> bool" where
  "occurs_at buf bytes i \<longleftrightarrow>
     bytes \<noteq> [] \<and> i + length bytes \<le> length buf \<and> take (length bytes) (drop i buf) = bytes"

subsection \<open>Notions used by the statements\<close>

text \<open>
  The size of the next chunk, as both loops compute it.
\<close>

definition chunk_of :: "vm_size_t \<Rightarrow> vm_size_t" where
  "chunk_of r = (if r > MAX_CHUNK_SIZE then MAX_CHUNK_SIZE else r)"

text \<open>
  What a logged transfer was asked for, the task, the address and the size, and the
  bytes that went through it.
\<close>

fun request :: "call \<Rightarrow> (task_t \<times> vm_address_t \<times> vm_size_t) option" where
  "request (Vm_read_overwrite task a size' ret data) = Some (task, a, size')"
| "request (Vm_write task a data size' ret) = Some (task, a, size')"
| "request c = None"

fun bytes_of :: "call \<Rightarrow> byte list" where
  "bytes_of (Vm_read_overwrite task a size' ret data) = data"
| "bytes_of (Vm_write task a data size' ret) = data"
| "bytes_of c = []"

text \<open>
  Transfers that follow one another. \<^verbatim>\<open>sequential task a r evs\<close>: the logged calls \<^verbatim>\<open>evs\<close>
  are transfers for \<^verbatim>\<open>task\<close>, the first at the address \<^verbatim>\<open>a\<close> and each of the others where
  the bytes moved so far end, and each asks for what remains of \<^verbatim>\<open>r\<close> bytes, but for no
  more than \<^verbatim>\<open>MAX_CHUNK_SIZE\<close>.
\<close>

primrec sequential :: "task_t \<Rightarrow> vm_address_t \<Rightarrow> vm_size_t \<Rightarrow> call list \<Rightarrow> bool" where
  "sequential task a r [] \<longleftrightarrow> True"
| "sequential task a r (c # cs) \<longleftrightarrow>
     request c = Some (task, a, chunk_of r) \<and> sequential task (a + moved c) (r - moved c) cs"

text \<open>
  The place of the chunks in the buffer of the caller. \<^verbatim>\<open>fill buf off evs\<close> is the buffer
  \<^verbatim>\<open>buf\<close> after the bytes of each of the logged reads have been put into it, those of the
  first at the offset \<^verbatim>\<open>off\<close> and those of each of the others where the bytes moved so
  far end. \<^verbatim>\<open>drawn data off evs\<close>: the bytes handed to each of the logged writes are
  those of \<^verbatim>\<open>data\<close> from such an offset on, as many as the write was asked for.
\<close>

primrec fill :: "byte list \<Rightarrow> vm_size_t \<Rightarrow> call list \<Rightarrow> byte list" where
  "fill buf off [] = buf"
| "fill buf off (c # cs) = fill (store buf (unat off) (bytes_of c)) (off + moved c) cs"

primrec drawn :: "byte list \<Rightarrow> vm_size_t \<Rightarrow> call list \<Rightarrow> bool" where
  "drawn data off [] \<longleftrightarrow> True"
| "drawn data off (c # cs) \<longleftrightarrow>
     (case chunk c of
        Some n \<Rightarrow> bytes_of c = take (unat n) (drop (unat off) data)
      | None \<Rightarrow> False) \<and>
     drawn data (off + moved c) cs"

text \<open>
  The range of \<^verbatim>\<open>L\<close> bytes at \<^verbatim>\<open>a\<close> cut into chunks of the maximum size, as the
  specification has it: \<^verbatim>\<open>L\<close> divided by \<^verbatim>\<open>MAX_CHUNK_SIZE\<close>, rounded up, chunks, of which
  the one with index \<^verbatim>\<open>i\<close> starts \<^verbatim>\<open>i\<close> times \<^verbatim>\<open>MAX_CHUNK_SIZE\<close> bytes after \<^verbatim>\<open>a\<close> and has
  \<^verbatim>\<open>MAX_CHUNK_SIZE\<close> bytes, or those left of \<^verbatim>\<open>L\<close> if they are fewer. Each is given as its
  address and its size.
\<close>

definition chunks_of_range :: "vm_address_t \<Rightarrow> vm_size_t \<Rightarrow> (vm_address_t \<times> vm_size_t) list" where
  "chunks_of_range a L =
     map (\<lambda>i. (a + of_nat i * MAX_CHUNK_SIZE,
               of_nat (min (unat MAX_CHUNK_SIZE) (unat L - i * unat MAX_CHUNK_SIZE))))
       [0..<(unat L + unat MAX_CHUNK_SIZE - 1) div unat MAX_CHUNK_SIZE]"

text \<open>
  What a search for the kernel base leaves behind, from the state \<^verbatim>\<open>s\<close> in which it
  started: the task port is untouched, and either the address returned is cached, or 0
  was returned and the cache flag is as it was.
\<close>

definition loop_result :: "state \<Rightarrow> vm_address_t \<times> state \<Rightarrow> bool" where
  "loop_result s y \<longleftrightarrow>
     kernel_task (snd y) = kernel_task s \<and> task_initialized (snd y) = task_initialized s \<and>
     (base_initialized (snd y) \<and> addr (snd y) = fst y \<or>
      fst y = 0 \<and> base_initialized (snd y) = base_initialized s)"

text \<open>
  What every function of the file keeps from \<^verbatim>\<open>s\<close> to \<^verbatim>\<open>s'\<close>: a cached task port and a
  cached base address.
\<close>

definition cached :: "state \<Rightarrow> state \<Rightarrow> bool" where
  "cached s s' \<longleftrightarrow>
     (task_initialized s \<longrightarrow> task_initialized s' \<and> kernel_task s' = kernel_task s) \<and>
     (base_initialized s \<longrightarrow> base_initialized s' \<and> addr s' = addr s)"

text \<open>
  A program that uses the file is a sequence of calls of its five functions. \<^verbatim>\<open>run\<close>
  gives the state after such a sequence, and \<^verbatim>\<open>None\<close> when one of the calls never
  returns.
\<close>

datatype api_call =
    Get_kernel_task
  | Get_kernel_base
  | Read_kernel vm_address_t vm_size_t "byte list"
  | Write_kernel vm_address_t "byte list" vm_size_t
  | Find_bytes_kern vm_address_t vm_address_t "byte list"

fun api_step :: "arch \<Rightarrow> kernel \<Rightarrow> api_call \<Rightarrow> state \<Rightarrow> state option" where
  "api_step ar k Get_kernel_task s = Some (snd (get_kernel_task k s))"
| "api_step ar k Get_kernel_base s = map_option snd (get_kernel_base ar k s)"
| "api_step ar k (Read_kernel a size' buf) s = map_option (snd \<circ> snd) (read_kernel k a size' buf s)"
| "api_step ar k (Write_kernel a data size') s = map_option snd (write_kernel k a data size' s)"
| "api_step ar k (Find_bytes_kern start end_addr bytes) s =
     map_option snd (find_bytes_kern k start end_addr bytes s)"

primrec run :: "arch \<Rightarrow> kernel \<Rightarrow> api_call list \<Rightarrow> state \<Rightarrow> state option" where
  "run ar k [] s = Some s"
| "run ar k (c # cs) s = (case api_step ar k c s of None \<Rightarrow> None | Some s1 \<Rightarrow> run ar k cs s1)"

subsection \<open>Sample kernels\<close>

text \<open>
  A 64-bit ARM target: the header is a \<^verbatim>\<open>mach_header_64\<close>, 32 bytes with the magic number
  at byte 0, the CPU type at byte 4 and the file type at byte 12, each a little-endian
  32-bit word.
\<close>

definition le32 :: "byte list \<Rightarrow> 32 word" where
  "le32 bs =
     (case bs of
        b0 # b1 # b2 # b3 # rest \<Rightarrow>
          ucast b0 + 256 * (ucast b1 + 256 * (ucast b2 + 256 * ucast b3))
      | _ \<Rightarrow> 0)"

definition demo_hdr_of :: "byte list \<Rightarrow> mach_hdr_t" where
  "demo_hdr_of data =
     \<lparr>magic = le32 data, cputype = le32 (drop 4 data), filetype = le32 (drop 12 data)\<rparr>"

definition demo_arch :: arch where
  "demo_arch =
     \<lparr>IMAGE_OFFSET = 0x2000, MACH_TYPE = 0x0100000C, MACH_HEADER_MAGIC = 0xFEEDFACF,
      sizeof_mach_hdr_t = 32, mach_hdr_of = demo_hdr_of\<rparr>"

definition demo_header :: "byte list" where
  "demo_header =
     [0xCF, 0xFA, 0xED, 0xFE, 0x0C, 0, 0, 1, 0, 0, 0, 0, 2, 0, 0, 0] @ replicate 16 0"

definition blank_header :: "byte list" where
  "blank_header = [0, 0, 0, 0, 0, 0, 0, 0, 0, 0, 0, 0, 0, 0, 0, 0] @ replicate 16 0"

definition stale_header :: "byte list" where
  "stale_header =
     [0, 0xFA, 0xED, 0xFE, 0x0C, 0, 0, 1, 0, 0, 0, 0, 2, 0, 0, 0] @ replicate 16 0"

text \<open>
  \<^verbatim>\<open>demo_kernel\<close> hands out the task port, maps a small region at \<^verbatim>\<open>0x4000\<close> and a region
  of two gigabytes without protection bits at \<^verbatim>\<open>0xFFFFFF8000000000\<close>, and carries out
  every transfer in full; \<^verbatim>\<open>hdr1\<close> and \<^verbatim>\<open>hdr2\<close> start as blank headers. The others differ
  from it in the answers named: \<^verbatim>\<open>header_kernel\<close> holds a valid header at the given
  addresses and a blank one elsewhere; \<^verbatim>\<open>short_read_kernel\<close> holds at both offsets of the
  region a header that is valid but for the first byte of its magic number, and one
  stride further it transfers the single byte \<^verbatim>\<open>0xCF\<close> at the first offset and a valid
  header at the second;
  \<^verbatim>\<open>no_task_kernel\<close> refuses the task port and its \<^verbatim>\<open>malloc\<close> hands out a block with old
  contents; \<^verbatim>\<open>faulting_kernel\<close> fails every transfer at or above a limit;
  \<^verbatim>\<open>no_malloc_kernel\<close> has no memory to hand out; \<^verbatim>\<open>bytes_kernel\<close> holds the bytes 1 to 8
  at \<^verbatim>\<open>0x1000\<close>.
\<close>

definition demo_kernel :: kernel where
  "demo_kernel =
     \<lparr>task_for_pid = (\<lambda>h. (KERN_SUCCESS, 0x103)),
      host_get_special_port = (\<lambda>h. (KERN_FAILURE, MACH_PORT_NULL)),
      vm_region_recurse_64 =
        (\<lambda>h task a.
           if a \<le> 0x4000 then (KERN_SUCCESS, 0x4000, 0x8000, 5)
           else if a \<le> 0xFFFFFF8000000000
             then (KERN_SUCCESS, 0xFFFFFF8000000000, 0x80000000, 0)
           else (1, a, 0, 0)),
      vm_read_overwrite = (\<lambda>h task a n. (KERN_SUCCESS, replicate (unat n) 0xAA)),
      vm_write = (\<lambda>h task a data n. KERN_SUCCESS),
      malloc = (\<lambda>h n. Some (replicate (unat n) 0)),
      stack = (\<lambda>h. (blank_header, blank_header))\<rparr>"

definition header_kernel :: "vm_address_t list \<Rightarrow> kernel" where
  "header_kernel hs =
     demo_kernel\<lparr>vm_read_overwrite :=
       (\<lambda>h task a n. (KERN_SUCCESS, if a \<in> set hs then demo_header else blank_header))\<rparr>"

definition short_read_kernel :: kernel where
  "short_read_kernel =
     demo_kernel\<lparr>vm_read_overwrite :=
       (\<lambda>h task a n.
          (KERN_SUCCESS,
           if a = 0xFFFFFF8000102000 then [0xCF]
           else if a = 0xFFFFFF8000104000 then demo_header
           else stale_header))\<rparr>"

definition no_task_kernel :: kernel where
  "no_task_kernel =
     demo_kernel\<lparr>task_for_pid := (\<lambda>h. (KERN_FAILURE, MACH_PORT_NULL)),
                 malloc := (\<lambda>h n. Some [7, 1, 2, 3])\<rparr>"

definition faulting_kernel :: "vm_address_t \<Rightarrow> kernel" where
  "faulting_kernel limit =
     demo_kernel\<lparr>vm_read_overwrite :=
                   (\<lambda>h task a n. if a < limit then (KERN_SUCCESS, replicate (unat n) 0xAA)
                                 else (1, [])),
                 vm_write := (\<lambda>h task a data n. if a < limit then KERN_SUCCESS else 1)\<rparr>"

definition no_malloc_kernel :: kernel where
  "no_malloc_kernel = demo_kernel\<lparr>malloc := (\<lambda>h n. None)\<rparr>"

definition bytes_kernel :: kernel where
  "bytes_kernel =
     demo_kernel\<lparr>vm_read_overwrite :=
       (\<lambda>h task a n.
          (KERN_SUCCESS, take (unat n) (drop (unat (a - 0x1000)) [1, 2, 3, 4, 5, 6, 7, 8])))\<rparr>"

text \<open>
  The state after a first successful \<^verbatim>\<open>get_kernel_task\<close>, and after a first successful
  \<^verbatim>\<open>get_kernel_base\<close> on the kernel with its header at the second offset.
\<close>

definition ready_state :: state where
  "ready_state = initial_state\<lparr>kernel_task := 0x103, task_initialized := True,
     calls := [Task_for_pid KERN_SUCCESS 0x103]\<rparr>"

definition found_state :: state where
  "found_state =
     \<lparr>kernel_task = 0x103, task_initialized = True, addr = 0xFFFFFF8000004000,
      base_initialized = True,
      calls =
        [Task_for_pid KERN_SUCCESS 0x103,
         Vm_region_recurse_64 0x103 0 KERN_SUCCESS 0x4000 0x8000 5,
         Vm_region_recurse_64 0x103 0xC000 KERN_SUCCESS 0xFFFFFF8000000000 0x80000000 0,
         Vm_read_overwrite 0x103 0xFFFFFF8000002000 32 KERN_SUCCESS blank_header,
         Vm_read_overwrite 0x103 0xFFFFFF8000004000 32 KERN_SUCCESS demo_header]\<rparr>"

section \<open>Properties\<close>

lemmas kernel_defs =
  demo_kernel_def header_kernel_def short_read_kernel_def no_task_kernel_def faulting_kernel_def
  no_malloc_kernel_def bytes_kernel_def
  KERN_SUCCESS_def KERN_FAILURE_def MACH_PORT_NULL_def MACH_PORT_DEAD_def MACH_PORT_VALID_def
  VERIFY_PORT_def call_task_for_pid_def call_host_get_special_port_def get_kernel_task_def
  initial_state_def

lemmas call_defs =
  call_vm_region_recurse_64_def call_vm_read_overwrite_def call_vm_write_def kernel_region_def
  VM_PROT_READ_def VM_PROT_WRITE_def VM_PROT_EXECUTE_def MAX_CHUNK_SIZE_def

lemmas arch_defs =
  demo_arch_def demo_hdr_of_def le32_def demo_header_def blank_header_def stale_header_def
  MH_EXECUTE_def

subsection \<open>The handle cache\<close>

lemma VERIFY_PORT_valid: "MACH_PORT_VALID port \<Longrightarrow> VERIFY_PORT port ret = KERN_SUCCESS"
  by (simp add: VERIFY_PORT_def)

lemma VERIFY_PORT_invalid:
  "\<not> MACH_PORT_VALID port \<Longrightarrow> VERIFY_PORT port ret \<noteq> KERN_SUCCESS"
  by (simp add: VERIFY_PORT_def KERN_SUCCESS_def KERN_FAILURE_def)

lemma get_kernel_task_attempts:
  assumes "\<not> task_initialized s"
    and "call_task_for_pid k s = (ret0, s1)"
    and "call_host_get_special_port k s1 = (ret2, s2)"
  shows "get_kernel_task k s =
     (if MACH_PORT_VALID (kernel_task s1)
      then (Inr (kernel_task s1), s1\<lparr>task_initialized := True\<rparr>)
      else if MACH_PORT_VALID (kernel_task s2)
      then (Inr (kernel_task s2), s2\<lparr>task_initialized := True\<rparr>)
      else (Inl (VERIFY_PORT (kernel_task s2) ret2), s2))"
  using assms VERIFY_PORT_valid VERIFY_PORT_invalid
  by (simp add: get_kernel_task_def Let_def)

text \<open>
  C1. The status that \<^verbatim>\<open>VERIFY_PORT\<close> leaves in \<^verbatim>\<open>ret\<close> follows a table of four cases: a
  valid port with a success status stays a success; a valid port with a failure status
  becomes a success; an invalid port with a success status becomes \<^verbatim>\<open>KERN_FAILURE\<close>; an
  invalid port with a failure status keeps its failure status. \<^verbatim>\<open>get_kernel_task\<close>, when
  it has no cached port, passes each of its attempts through the table, so that an
  attempt succeeds exactly when it leaves a valid port: the port of \<^verbatim>\<open>task_for_pid\<close> if
  it is valid, else the port of \<^verbatim>\<open>host_get_special_port\<close> if that is valid, else the
  failure status the table gives for the second attempt.
\<close>

theorem C1_VERIFY_PORT_table:
  "(MACH_PORT_VALID port \<and> ret = KERN_SUCCESS \<longrightarrow> VERIFY_PORT port ret = KERN_SUCCESS) \<and>
   (MACH_PORT_VALID port \<and> ret \<noteq> KERN_SUCCESS \<longrightarrow> VERIFY_PORT port ret = KERN_SUCCESS) \<and>
   (\<not> MACH_PORT_VALID port \<and> ret = KERN_SUCCESS \<longrightarrow>
      VERIFY_PORT port ret = KERN_FAILURE \<and> KERN_FAILURE \<noteq> KERN_SUCCESS) \<and>
   (\<not> MACH_PORT_VALID port \<and> ret \<noteq> KERN_SUCCESS \<longrightarrow>
      VERIFY_PORT port ret = ret \<and> VERIFY_PORT port ret \<noteq> KERN_SUCCESS) \<and>
   (\<not> task_initialized s \<and> call_task_for_pid k s = (ret0, s1) \<and>
    call_host_get_special_port k s1 = (ret2, s2) \<longrightarrow>
      get_kernel_task k s =
        (if MACH_PORT_VALID (kernel_task s1)
         then (Inr (kernel_task s1), s1\<lparr>task_initialized := True\<rparr>)
         else if MACH_PORT_VALID (kernel_task s2)
         then (Inr (kernel_task s2), s2\<lparr>task_initialized := True\<rparr>)
         else (Inl (VERIFY_PORT (kernel_task s2) ret2), s2)))"
proof (intro conjI)
  show "\<not> task_initialized s \<and> call_task_for_pid k s = (ret0, s1) \<and>
    call_host_get_special_port k s1 = (ret2, s2) \<longrightarrow>
      get_kernel_task k s =
        (if MACH_PORT_VALID (kernel_task s1)
         then (Inr (kernel_task s1), s1\<lparr>task_initialized := True\<rparr>)
         else if MACH_PORT_VALID (kernel_task s2)
         then (Inr (kernel_task s2), s2\<lparr>task_initialized := True\<rparr>)
         else (Inl (VERIFY_PORT (kernel_task s2) ret2), s2))"
    using get_kernel_task_attempts by blast
qed (simp_all add: VERIFY_PORT_def KERN_SUCCESS_def KERN_FAILURE_def)

theorem C1_VERIFY_PORT_table_witness:
  "MACH_PORT_VALID 0x103 \<and> VERIFY_PORT 0x103 KERN_SUCCESS = KERN_SUCCESS \<and>
   (53 :: kern_return_t) \<noteq> KERN_SUCCESS \<and> VERIFY_PORT 0x103 53 = KERN_SUCCESS \<and>
   \<not> MACH_PORT_VALID 0 \<and> VERIFY_PORT 0 KERN_SUCCESS = KERN_FAILURE \<and>
   VERIFY_PORT 0 53 = 53 \<and>
   get_kernel_task demo_kernel initial_state = (Inr 0x103, ready_state) \<and>
   get_kernel_task no_task_kernel initial_state =
     (Inl KERN_FAILURE,
      initial_state\<lparr>calls := [Task_for_pid KERN_FAILURE 0, Host_get_special_port KERN_FAILURE 0]\<rparr>)"
proof -
  have valid: "MACH_PORT_VALID 0x103"
    by (simp add: MACH_PORT_VALID_def MACH_PORT_NULL_def MACH_PORT_DEAD_def)
  have invalid: "\<not> MACH_PORT_VALID 0"
    by (simp add: MACH_PORT_VALID_def MACH_PORT_NULL_def)
  have failure: "(53 :: kern_return_t) \<noteq> KERN_SUCCESS"
    by (simp add: KERN_SUCCESS_def)
  have fresh: "\<not> task_initialized initial_state"
    by (simp add: initial_state_def)
  define s1 where "s1 = snd (call_task_for_pid demo_kernel initial_state)"
  define s2 where "s2 = snd (call_host_get_special_port demo_kernel s1)"
  have first: "call_task_for_pid demo_kernel initial_state = (KERN_SUCCESS, s1)"
    by (simp add: s1_def kernel_defs)
  have second: "call_host_get_special_port demo_kernel s1 = (KERN_FAILURE, s2)"
    by (simp add: s2_def kernel_defs)
  have port1: "kernel_task s1 = 0x103" "s1\<lparr>task_initialized := True\<rparr> = ready_state"
    by (simp_all add: s1_def kernel_defs ready_state_def)
  define t1 where "t1 = snd (call_task_for_pid no_task_kernel initial_state)"
  define t2 where "t2 = snd (call_host_get_special_port no_task_kernel t1)"
  have nfirst: "call_task_for_pid no_task_kernel initial_state = (KERN_FAILURE, t1)"
    by (simp add: t1_def kernel_defs)
  have nsecond: "call_host_get_special_port no_task_kernel t1 = (KERN_FAILURE, t2)"
    by (simp add: t2_def kernel_defs)
  have ports: "kernel_task t1 = 0" "kernel_task t2 = 0"
    "t2 = initial_state\<lparr>calls := [Task_for_pid KERN_FAILURE 0, Host_get_special_port KERN_FAILURE 0]\<rparr>"
    by (simp_all add: t1_def t2_def kernel_defs)
  note table = C1_VERIFY_PORT_table [THEN conjunct1]
    C1_VERIFY_PORT_table [THEN conjunct2, THEN conjunct1]
    C1_VERIFY_PORT_table [THEN conjunct2, THEN conjunct2, THEN conjunct1]
    C1_VERIFY_PORT_table [THEN conjunct2, THEN conjunct2, THEN conjunct2, THEN conjunct1]
  note attempts = C1_VERIFY_PORT_table [THEN conjunct2, THEN conjunct2, THEN conjunct2,
    THEN conjunct2, THEN mp]
  have a: "VERIFY_PORT 0x103 KERN_SUCCESS = KERN_SUCCESS"
    using table(1) [of "0x103" KERN_SUCCESS] valid by simp
  have b: "VERIFY_PORT 0x103 53 = KERN_SUCCESS"
    using table(2) [of "0x103" 53] valid failure by simp
  have c: "VERIFY_PORT 0 KERN_SUCCESS = KERN_FAILURE"
    using table(3) [of 0 KERN_SUCCESS] invalid by simp
  have d: "VERIFY_PORT 0 53 = 53"
    using table(4) [of 0 53] invalid failure by simp
  have e: "get_kernel_task demo_kernel initial_state = (Inr 0x103, ready_state)"
    using attempts [OF conjI [OF fresh conjI [OF first second]]] valid by (simp add: port1)
  have f: "get_kernel_task no_task_kernel initial_state =
     (Inl KERN_FAILURE,
      initial_state\<lparr>calls := [Task_for_pid KERN_FAILURE 0, Host_get_special_port KERN_FAILURE 0]\<rparr>)"
    using attempts [OF conjI [OF fresh conjI [OF nfirst nsecond]]] invalid
      table(4) [of 0 KERN_FAILURE]
    by (simp add: ports KERN_FAILURE_def KERN_SUCCESS_def initial_state_def MACH_PORT_NULL_def)
  from valid a failure b invalid c d e f show ?thesis by simp
qed

lemma get_kernel_task_cached:
  "task_initialized s \<Longrightarrow> get_kernel_task k s = (Inr (kernel_task s), s)"
  by (simp add: get_kernel_task_def)

lemma get_kernel_task_Inr:
  assumes "get_kernel_task k s = (Inr t, s1)"
  shows "task_initialized s1 \<and> kernel_task s1 = t \<and> addr s1 = addr s \<and>
         base_initialized s1 = base_initialized s"
  using assms
  by (auto simp: get_kernel_task_def call_task_for_pid_def call_host_get_special_port_def Let_def
           split: if_splits prod.splits)

lemma get_kernel_task_Inl:
  assumes "get_kernel_task k s = (Inl ret, s1)"
  shows "ret \<noteq> KERN_SUCCESS \<and> \<not> task_initialized s1 \<and> addr s1 = addr s \<and>
         base_initialized s1 = base_initialized s"
  using assms
  by (auto simp: get_kernel_task_def call_task_for_pid_def call_host_get_special_port_def Let_def
           split: if_splits prod.splits)

lemma get_kernel_task_keeps:
  assumes "get_kernel_task k s = (r, s1)"
  shows "addr s1 = addr s \<and> base_initialized s1 = base_initialized s \<and>
         (task_initialized s \<longrightarrow> s1 = s)"
  using assms
  by (auto simp: get_kernel_task_def call_task_for_pid_def call_host_get_special_port_def Let_def
           split: if_splits prod.splits)

lemma demo_task: "get_kernel_task demo_kernel initial_state = (Inr 0x103, ready_state)"
  by (simp add: kernel_defs ready_state_def)

subsection \<open>The search for the kernel base\<close>

lemma call_vm_read_overwrite_state:
  "call_vm_read_overwrite k task a n s = ((ret, data), s1) \<Longrightarrow>
     s1 = s\<lparr>calls := calls s @ [Vm_read_overwrite task a n ret data]\<rparr>"
  by (auto simp: call_vm_read_overwrite_def split: prod.splits)

lemma call_vm_write_state:
  "call_vm_write k task a d n s = (ret, s1) \<Longrightarrow>
     s1 = s\<lparr>calls := calls s @ [Vm_write task a d n ret]\<rparr>"
  by (auto simp: call_vm_write_def Let_def)

lemma call_vm_region_recurse_64_keeps:
  "call_vm_region_recurse_64 k task s = (r, s1) \<Longrightarrow>
     kernel_task s1 = kernel_task s \<and> task_initialized s1 = task_initialized s \<and>
     base_initialized s1 = base_initialized s"
  by (auto simp: call_vm_region_recurse_64_def split: prod.splits)

lemma header_loop_result:
  assumes "header_loop ar k task hdr1 hdr2 s = Some y"
  shows "loop_result s y"
proof (rule header_loop.raw_induct [where P = "\<lambda>ar k task hdr1 hdr2 s y. loop_result s y",
      OF _ assms], goal_cases)
  case (1 header_loop ar k task hdr1 hdr2 s y)
  obtain ret1 data1 s1 where r1:
    "call_vm_read_overwrite k task (addr s + IMAGE_OFFSET ar) (sizeof_mach_hdr_t ar) s = ((ret1, data1), s1)"
    by (metis surj_pair)
  obtain ret2 data2 s2 where r2:
    "call_vm_read_overwrite k task (addr s1 + 2 * IMAGE_OFFSET ar) (sizeof_mach_hdr_t ar) s1 = ((ret2, data2), s2)"
    by (metis surj_pair)
  note st1 = call_vm_read_overwrite_state [OF r1]
  note st2 = call_vm_read_overwrite_state [OF r2]
  define h1 where "h1 = mach_hdr_of ar (store hdr1 0 data1)"
  define h2 where "h2 = mach_hdr_of ar (store hdr2 0 data2)"
  define m1 where "m1 \<longleftrightarrow> magic h1 = MACH_HEADER_MAGIC ar"
  define m2 where "m2 \<longleftrightarrow> magic h2 = MACH_HEADER_MAGIC ar"
  define t1 where "t1 \<longleftrightarrow> cputype h1 = MACH_TYPE ar \<and> filetype h1 = MH_EXECUTE"
  define t2 where "t2 \<longleftrightarrow> cputype h2 = MACH_TYPE ar \<and> filetype h2 = MH_EXECUTE"
  from 1(2) have eq: "(if ret1 \<noteq> KERN_SUCCESS then Some (0, s1)
      else if ret2 \<noteq> KERN_SUCCESS
        then if m1 then Some (got_kernel_base (s2\<lparr>addr := addr s2 + IMAGE_OFFSET ar\<rparr>))
             else Some (0, s2)
      else if (m1 \<and> m2) \<and> (if m1 \<and> m2 then t1 else m1) \<and> (if m1 \<and> m2 then t2 else m2)
        then Some (0, s2)
      else if (if m1 \<and> m2 then t1 else m1)
        then Some (got_kernel_base (s2\<lparr>addr := addr s2 + IMAGE_OFFSET ar\<rparr>))
      else if (if m1 \<and> m2 then t2 else m2)
        then Some (got_kernel_base (s2\<lparr>addr := addr s2 + 2 * IMAGE_OFFSET ar\<rparr>))
      else header_loop ar k task (store hdr1 0 data1) (store hdr2 0 data2)
             (s2\<lparr>addr := addr s2 + 0x100000\<rparr>)) = Some y"
    by (simp only: r1 r2 prod.case Let_def m1_def m2_def t1_def t2_def h1_def h2_def)
  then consider
      (fail) "y = (0, s1)" | (fail2) "y = (0, s2)"
    | (got1) "y = got_kernel_base (s2\<lparr>addr := addr s2 + IMAGE_OFFSET ar\<rparr>)"
    | (got2) "y = got_kernel_base (s2\<lparr>addr := addr s2 + 2 * IMAGE_OFFSET ar\<rparr>)"
    | (again) "header_loop ar k task (store hdr1 0 data1) (store hdr2 0 data2)
        (s2\<lparr>addr := addr s2 + 0x100000\<rparr>) = Some y"
    apply (cases "ret1 \<noteq> KERN_SUCCESS")
     apply simp
    apply (cases "ret2 \<noteq> KERN_SUCCESS")
     apply (cases m1)
      apply simp
     apply simp
    apply (cases m1; cases m2; cases t1; cases t2)
                   apply simp_all
    done
  then show ?case
  proof cases
    case again
    from 1(1) [OF again] show ?thesis by (simp add: st1 st2 loop_result_def)
  qed (simp_all add: st1 st2 got_kernel_base_def loop_result_def)
qed

lemma region_loop_result:
  assumes "region_loop ar k task s = Some y"
  shows "loop_result s y"
proof (rule region_loop.raw_induct [where P = "\<lambda>ar k task s y. loop_result s y", OF _ assms],
    goal_cases)
  case (1 region_loop ar k task s y)
  obtain ret size' prot s1 where r: "call_vm_region_recurse_64 k task s = ((ret, size', prot), s1)"
    by (metis surj_pair)
  obtain hdr1 hdr2 where st: "stack k (calls s1) = (hdr1, hdr2)"
    by (metis surj_pair)
  note keeps = call_vm_region_recurse_64_keeps [OF r]
  from 1(2) have "(if ret \<noteq> KERN_SUCCESS then Some (0, s1)
          else if kernel_region size' prot then header_loop ar k task hdr1 hdr2 s1
          else region_loop ar k task (s1\<lparr>addr := addr s1 + size'\<rparr>)) = Some y"
    by (simp add: r st cong: if_cong)
  then consider
      (fail) "y = (0, s1)"
    | (hdr) "header_loop ar k task hdr1 hdr2 s1 = Some y"
    | (again) "region_loop ar k task (s1\<lparr>addr := addr s1 + size'\<rparr>) = Some y"
    by (cases "ret \<noteq> KERN_SUCCESS"; cases "kernel_region size' prot") auto
  then show ?case
  proof cases
    case fail
    then show ?thesis using keeps by (simp add: loop_result_def)
  next
    case hdr
    from header_loop_result [OF hdr] show ?thesis using keeps by (simp add: loop_result_def)
  next
    case again
    from 1(1) [OF again] show ?thesis using keeps by (simp add: loop_result_def)
  qed
qed

lemma get_kernel_base_result:
  assumes "get_kernel_base ar k s = Some (b, s')"
  shows "(task_initialized s \<longrightarrow> task_initialized s' \<and> kernel_task s' = kernel_task s)"
    and "(base_initialized s \<longrightarrow> s' = s \<and> b = addr s)"
    and "base_initialized s' \<and> addr s' = b \<or> b = 0 \<and> \<not> base_initialized s'"
proof -
  show "base_initialized s \<longrightarrow> s' = s \<and> b = addr s"
    using assms by (auto simp: get_kernel_base_def)
  show "task_initialized s \<longrightarrow> task_initialized s' \<and> kernel_task s' = kernel_task s"
  proof (cases "base_initialized s")
    case True
    then show ?thesis using assms by (auto simp: get_kernel_base_def)
  next
    case False
    show ?thesis
    proof (cases "get_kernel_task k s")
      case (Pair r s1)
      note keeps = get_kernel_task_keeps [OF Pair]
      show ?thesis
      proof (cases r)
        case (Inl ret)
        then show ?thesis using assms False Pair keeps by (auto simp: get_kernel_base_def)
      next
        case (Inr task)
        with assms False Pair have "region_loop ar k task (s1\<lparr>addr := 0\<rparr>) = Some (b, s')"
          by (simp add: get_kernel_base_def)
        from region_loop_result [OF this] show ?thesis using keeps by (auto simp: loop_result_def)
      qed
    qed
  qed
  show "base_initialized s' \<and> addr s' = b \<or> b = 0 \<and> \<not> base_initialized s'"
  proof (cases "base_initialized s")
    case True
    then show ?thesis using assms by (auto simp: get_kernel_base_def)
  next
    case False
    show ?thesis
    proof (cases "get_kernel_task k s")
      case (Pair r s1)
      note keeps = get_kernel_task_keeps [OF Pair]
      show ?thesis
      proof (cases r)
        case (Inl ret)
        then show ?thesis using assms False Pair keeps by (auto simp: get_kernel_base_def)
      next
        case (Inr task)
        with assms False Pair have "region_loop ar k task (s1\<lparr>addr := 0\<rparr>) = Some (b, s')"
          by (simp add: get_kernel_base_def)
        from region_loop_result [OF this] show ?thesis using keeps False by (auto simp: loop_result_def)
      qed
    qed
  qed
qed

lemma skip_regions_loop:
  "skip_regions n k task s = Some s' \<Longrightarrow> region_loop ar k task s = region_loop ar k task s'"
proof (induction n arbitrary: s)
  case 0
  then show ?case by simp
next
  case (Suc n)
  obtain ret size' prot s1 where r: "call_vm_region_recurse_64 k task s = ((ret, size', prot), s1)"
    by (metis surj_pair)
  from Suc.prems r have ok: "ret = KERN_SUCCESS" "\<not> kernel_region size' prot"
    and rest: "skip_regions n k task (s1\<lparr>addr := addr s1 + size'\<rparr>) = Some s'"
    by (simp_all split: if_splits)
  have "region_loop ar k task s = region_loop ar k task (s1\<lparr>addr := addr s1 + size'\<rparr>)"
    by (subst region_loop.simps) (simp add: r ok)
  also have "\<dots> = region_loop ar k task s'"
    by (rule Suc.IH [OF rest])
  finally show ?case .
qed

lemma skip_regions_keeps:
  "skip_regions n k task s = Some s' \<Longrightarrow>
     kernel_task s' = kernel_task s \<and> task_initialized s' = task_initialized s \<and>
     base_initialized s' = base_initialized s"
proof (induction n arbitrary: s)
  case 0
  then show ?case by simp
next
  case (Suc n)
  obtain ret size' prot s1 where r: "call_vm_region_recurse_64 k task s = ((ret, size', prot), s1)"
    by (metis surj_pair)
  from Suc.prems r have rest: "skip_regions n k task (s1\<lparr>addr := addr s1 + size'\<rparr>) = Some s'"
    by (simp split: if_splits)
  from Suc.IH [OF rest] call_vm_region_recurse_64_keeps [OF r] show ?case by simp
qed

lemma get_kernel_base_search:
  assumes "\<not> base_initialized s"
    and "get_kernel_task k s = (Inr task, s1)"
    and "skip_regions n k task (s1\<lparr>addr := 0\<rparr>) = Some s2"
    and "call_vm_region_recurse_64 k task s2 = ((KERN_SUCCESS, size', prot), s3)"
    and "kernel_region size' prot"
    and "stack k (calls s3) = (u1, u2)"
  shows "get_kernel_base ar k s = header_loop ar k task u1 u2 s3"
proof -
  have "get_kernel_base ar k s = region_loop ar k task (s1\<lparr>addr := 0\<rparr>)"
    using assms(1,2) by (simp add: get_kernel_base_def)
  also have "\<dots> = region_loop ar k task s2"
    by (rule skip_regions_loop [OF assms(3)])
  also have "\<dots> = header_loop ar k task u1 u2 s3"
    by (subst region_loop.simps) (simp add: assms(4,5,6))
  finally show ?thesis .
qed

lemma header_loop_both_read:
  assumes r1: "call_vm_read_overwrite k task (addr s + IMAGE_OFFSET ar) (sizeof_mach_hdr_t ar) s =
      ((KERN_SUCCESS, data1), s1)"
    and r2: "call_vm_read_overwrite k task (addr s + 2 * IMAGE_OFFSET ar) (sizeof_mach_hdr_t ar) s1 =
      ((KERN_SUCCESS, data2), s2)"
  shows "header_loop ar k task hdr1 hdr2 s =
    (let hdr1' = store hdr1 0 data1; hdr2' = store hdr2 0 data2;
         h1 = mach_hdr_of ar hdr1'; h2 = mach_hdr_of ar hdr2';
         b1 = (magic h1 = MACH_HEADER_MAGIC ar);
         b2 = (magic h2 = MACH_HEADER_MAGIC ar);
         both = (b1 \<and> b2);
         b1 = (if both then cputype h1 = MACH_TYPE ar \<and> filetype h1 = MH_EXECUTE else b1);
         b2 = (if both then cputype h2 = MACH_TYPE ar \<and> filetype h2 = MH_EXECUTE else b2)
     in
       if both \<and> b1 \<and> b2 then Some (0, s2)
       else if b1 then Some (got_kernel_base (s2\<lparr>addr := addr s2 + IMAGE_OFFSET ar\<rparr>))
       else if b2 then Some (got_kernel_base (s2\<lparr>addr := addr s2 + 2 * IMAGE_OFFSET ar\<rparr>))
       else header_loop ar k task hdr1' hdr2' (s2\<lparr>addr := addr s2 + 0x100000\<rparr>))"
proof -
  have a1: "addr s1 = addr s"
    using call_vm_read_overwrite_state [OF r1] by simp
  from r2 have r2': "call_vm_read_overwrite k task (addr s1 + 2 * IMAGE_OFFSET ar) (sizeof_mach_hdr_t ar) s1 =
      ((KERN_SUCCESS, data2), s2)"
    by (simp add: a1)
  show ?thesis
    by (subst header_loop.simps) (simp only: r1 r2' prod.case simp_thms if_False)
qed

lemma skip_strides_loop:
  "skip_strides m ar k task hdr1 hdr2 s = Some (hdr1', hdr2', s') \<Longrightarrow>
     header_loop ar k task hdr1 hdr2 s = header_loop ar k task hdr1' hdr2' s'"
proof (induction m arbitrary: hdr1 hdr2 s)
  case 0
  then show ?case by simp
next
  case (Suc m)
  obtain ret1 data1 s1 where r1:
    "call_vm_read_overwrite k task (addr s + IMAGE_OFFSET ar) (sizeof_mach_hdr_t ar) s = ((ret1, data1), s1)"
    by (metis surj_pair)
  obtain ret2 data2 s2 where r2:
    "call_vm_read_overwrite k task (addr s1 + 2 * IMAGE_OFFSET ar) (sizeof_mach_hdr_t ar) s1 = ((ret2, data2), s2)"
    by (metis surj_pair)
  from Suc.prems r1 r2 have ok: "ret1 = KERN_SUCCESS" "ret2 = KERN_SUCCESS"
      "magic (mach_hdr_of ar (store hdr1 0 data1)) \<noteq> MACH_HEADER_MAGIC ar"
      "magic (mach_hdr_of ar (store hdr2 0 data2)) \<noteq> MACH_HEADER_MAGIC ar"
    and rest: "skip_strides m ar k task (store hdr1 0 data1) (store hdr2 0 data2)
      (s2\<lparr>addr := addr s2 + 0x100000\<rparr>) = Some (hdr1', hdr2', s')"
    by (simp_all add: Let_def split: if_splits)
  have "header_loop ar k task hdr1 hdr2 s =
      header_loop ar k task (store hdr1 0 data1) (store hdr2 0 data2) (s2\<lparr>addr := addr s2 + 0x100000\<rparr>)"
    by (subst header_loop.simps) (simp add: r1 r2 ok Let_def)
  also have "\<dots> = header_loop ar k task hdr1' hdr2' s'"
    by (rule Suc.IH [OF rest])
  finally show ?case .
qed

lemma skip_strides_keeps:
  "skip_strides m ar k task hdr1 hdr2 s = Some (hdr1', hdr2', s') \<Longrightarrow>
     addr s' = addr s + of_nat m * 0x100000 \<and>
     kernel_task s' = kernel_task s \<and> task_initialized s' = task_initialized s \<and>
     base_initialized s' = base_initialized s \<and> length (calls s') = length (calls s) + 2 * m"
proof (induction m arbitrary: hdr1 hdr2 s)
  case 0
  then show ?case by simp
next
  case (Suc m)
  obtain ret1 data1 s1 where r1:
    "call_vm_read_overwrite k task (addr s + IMAGE_OFFSET ar) (sizeof_mach_hdr_t ar) s = ((ret1, data1), s1)"
    by (metis surj_pair)
  obtain ret2 data2 s2 where r2:
    "call_vm_read_overwrite k task (addr s1 + 2 * IMAGE_OFFSET ar) (sizeof_mach_hdr_t ar) s1 = ((ret2, data2), s2)"
    by (metis surj_pair)
  from Suc.prems r1 r2 have rest: "skip_strides m ar k task (store hdr1 0 data1) (store hdr2 0 data2)
      (s2\<lparr>addr := addr s2 + 0x100000\<rparr>) = Some (hdr1', hdr2', s')"
    by (simp add: Let_def split: if_splits)
  from Suc.IH [OF rest] call_vm_read_overwrite_state [OF r1] call_vm_read_overwrite_state [OF r2]
  show ?case by (simp add: algebra_simps)
qed

lemma store_whole: "length buf \<le> length data \<Longrightarrow> store buf 0 data = data"
  by (simp add: store_def)

text \<open>
  C2. \<^verbatim>\<open>get_kernel_base\<close> has no cached address and gets the task port; the loop over the
  regions passes \<^verbatim>\<open>n\<close> regions that fail the test and then finds one that passes it, at
  the address \<^verbatim>\<open>addr s3\<close>; the loop over the candidate offsets has strided on \<^verbatim>\<open>m\<close> times
  (for \<^verbatim>\<open>m = 0\<close> it is at the start of the region). Now both headers are read, and of the
  magic numbers that \<^verbatim>\<open>hdr1\<close> and \<^verbatim>\<open>hdr2\<close> then hold exactly one is the expected one. Then
  the function returns, and caches, the address of the pass plus the offset of that
  header: plus twice \<^verbatim>\<open>IMAGE_OFFSET\<close> when it is the second header that matches, plus
  \<^verbatim>\<open>IMAGE_OFFSET\<close> when it is the first. The bytes \<^verbatim>\<open>hdr1\<close> holds are those of the transfer,
  followed by what \<^verbatim>\<open>hdr1\<close> held before where the transfer was shorter than the structure.
\<close>

theorem C2_one_magic_matches:
  assumes "\<not> base_initialized s"
    and "get_kernel_task k s = (Inr task, s1)"
    and "skip_regions n k task (s1\<lparr>addr := 0\<rparr>) = Some s2"
    and "call_vm_region_recurse_64 k task s2 = ((KERN_SUCCESS, size', prot), s3)"
    and "kernel_region size' prot"
    and "stack k (calls s3) = (u1, u2)"
    and "skip_strides m ar k task u1 u2 s3 = Some (hdr1, hdr2, s4)"
    and "call_vm_read_overwrite k task (addr s4 + IMAGE_OFFSET ar) (sizeof_mach_hdr_t ar) s4 =
      ((KERN_SUCCESS, data1), s5)"
    and "call_vm_read_overwrite k task (addr s4 + 2 * IMAGE_OFFSET ar) (sizeof_mach_hdr_t ar) s5 =
      ((KERN_SUCCESS, data2), s6)"
    and "(magic (mach_hdr_of ar (store hdr1 0 data1)) = MACH_HEADER_MAGIC ar) \<noteq>
         (magic (mach_hdr_of ar (store hdr2 0 data2)) = MACH_HEADER_MAGIC ar)"
  shows "get_kernel_base ar k s =
     (let base = addr s3 + of_nat m * 0x100000 +
                 (if magic (mach_hdr_of ar (store hdr2 0 data2)) = MACH_HEADER_MAGIC ar
                  then 2 * IMAGE_OFFSET ar else IMAGE_OFFSET ar)
      in Some (base, s6\<lparr>addr := base, base_initialized := True\<rparr>))"
proof -
  have a4: "addr s4 = addr s3 + of_nat m * 0x100000"
    using skip_strides_keeps [OF assms(7)] by simp
  have a: "addr s6 = addr s4"
    using call_vm_read_overwrite_state [OF assms(8)] call_vm_read_overwrite_state [OF assms(9)]
    by simp
  have "get_kernel_base ar k s = header_loop ar k task u1 u2 s3"
    by (rule get_kernel_base_search [OF assms(1-6)])
  also have "\<dots> = header_loop ar k task hdr1 hdr2 s4"
    by (rule skip_strides_loop [OF assms(7)])
  also have "\<dots> =
     (let base = addr s4 +
                 (if magic (mach_hdr_of ar (store hdr2 0 data2)) = MACH_HEADER_MAGIC ar
                  then 2 * IMAGE_OFFSET ar else IMAGE_OFFSET ar)
      in Some (base, s6\<lparr>addr := base, base_initialized := True\<rparr>))"
    using assms(10)
    by (subst header_loop_both_read [OF assms(8,9)])
       (cases "magic (mach_hdr_of ar (store hdr1 0 data1)) = MACH_HEADER_MAGIC ar";
        cases "magic (mach_hdr_of ar (store hdr2 0 data2)) = MACH_HEADER_MAGIC ar";
        simp add: Let_def got_kernel_base_def a)
  finally show ?thesis by (simp add: a4)
qed

lemma header_lengths:
  "length demo_header = 32" "length blank_header = 32" "length stale_header = 32"
  by (simp_all add: demo_header_def blank_header_def stale_header_def)

lemma store_headers:
  "store blank_header 0 blank_header = blank_header"
  "store blank_header 0 demo_header = demo_header"
  "store blank_header 0 stale_header = stale_header"
  "store stale_header 0 demo_header = demo_header"
  by (simp_all add: store_whole header_lengths)

lemma store_short: "store stale_header 0 [0xCF] = demo_header"
  by (simp add: store_def stale_header_def demo_header_def)

lemma header_fields:
  "magic (mach_hdr_of demo_arch demo_header) = MACH_HEADER_MAGIC demo_arch"
  "cputype (mach_hdr_of demo_arch demo_header) = MACH_TYPE demo_arch"
  "filetype (mach_hdr_of demo_arch demo_header) = MH_EXECUTE"
  "magic (mach_hdr_of demo_arch blank_header) \<noteq> MACH_HEADER_MAGIC demo_arch"
  "magic (mach_hdr_of demo_arch stale_header) \<noteq> MACH_HEADER_MAGIC demo_arch"
  by (simp_all add: arch_defs)

theorem C2_one_magic_matches_witness:
  "map_option fst (get_kernel_base demo_arch (header_kernel [0xFFFFFF8000004000]) initial_state) =
     Some 0xFFFFFF8000004000"
proof -
  let ?k = "header_kernel [0xFFFFFF8000004000]"
  define s1 where "s1 = snd (get_kernel_task ?k initial_state)"
  define s2 where "s2 = the (skip_regions (Suc 0) ?k 0x103 (s1\<lparr>addr := 0\<rparr>))"
  define s3 where "s3 = snd (call_vm_region_recurse_64 ?k 0x103 s2)"
  define s5 where "s5 = snd (call_vm_read_overwrite ?k 0x103 0xFFFFFF8000002000 32 s3)"
  define s6 where "s6 = snd (call_vm_read_overwrite ?k 0x103 0xFFFFFF8000004000 32 s5)"
  have h1: "\<not> base_initialized initial_state"
    by (simp add: initial_state_def)
  have h2: "get_kernel_task ?k initial_state = (Inr 0x103, s1)"
    by (simp add: s1_def kernel_defs)
  have h3: "skip_regions (Suc 0) ?k 0x103 (s1\<lparr>addr := 0\<rparr>) = Some s2"
    by (simp add: s2_def s1_def kernel_defs call_defs)
  have a2: "addr s2 = 0xC000"
    by (simp add: s2_def s1_def kernel_defs call_defs)
  have h4: "call_vm_region_recurse_64 ?k 0x103 s2 = ((KERN_SUCCESS, 0x80000000, 0), s3)"
    by (simp add: s3_def a2 kernel_defs call_defs)
  have h5: "kernel_region 0x80000000 0"
    by (simp add: call_defs)
  have a3: "addr s3 = 0xFFFFFF8000000000"
    by (simp add: s3_def a2 kernel_defs call_defs)
  have h6: "stack ?k (calls s3) = (blank_header, blank_header)"
    by (simp add: kernel_defs)
  have h7: "skip_strides 0 demo_arch ?k 0x103 blank_header blank_header s3 =
      Some (blank_header, blank_header, s3)"
    by simp
  have h8: "call_vm_read_overwrite ?k 0x103 (addr s3 + IMAGE_OFFSET demo_arch)
      (sizeof_mach_hdr_t demo_arch) s3 = ((KERN_SUCCESS, blank_header), s5)"
    by (simp add: s5_def a3 kernel_defs call_defs demo_arch_def)
  have h9: "call_vm_read_overwrite ?k 0x103 (addr s3 + 2 * IMAGE_OFFSET demo_arch)
      (sizeof_mach_hdr_t demo_arch) s5 = ((KERN_SUCCESS, demo_header), s6)"
    by (simp add: s6_def a3 kernel_defs call_defs demo_arch_def)
  have h10: "(magic (mach_hdr_of demo_arch (store blank_header 0 blank_header)) =
        MACH_HEADER_MAGIC demo_arch) \<noteq>
       (magic (mach_hdr_of demo_arch (store blank_header 0 demo_header)) =
        MACH_HEADER_MAGIC demo_arch)"
    by (simp add: store_headers header_fields)
  have off: "IMAGE_OFFSET demo_arch = 0x2000"
    by (simp add: demo_arch_def)
  from C2_one_magic_matches [OF h1 h2 h3 h4 h5 h6 h7 h8 h9 h10]
  have "get_kernel_base demo_arch ?k initial_state =
      Some (0xFFFFFF8000000000 + 2 * 0x2000,
            s6\<lparr>addr := 0xFFFFFF8000000000 + 2 * 0x2000, base_initialized := True\<rparr>)"
    by (simp add: store_headers header_fields a3 off)
  then show ?thesis by simp
qed

text \<open>
  C3. In the same search, when both headers are read, both magic numbers that \<^verbatim>\<open>hdr1\<close>
  and \<^verbatim>\<open>hdr2\<close> then hold are the expected one, and both also hold the expected CPU type
  and the file type \<^verbatim>\<open>MH_EXECUTE\<close>, \<^verbatim>\<open>get_kernel_base\<close> returns 0 and caches nothing. This
  is so on every pass of the loop over the candidate offsets, and whichever transfer
  has put the fields there.
\<close>

theorem C3_both_candidates_valid:
  assumes "\<not> base_initialized s"
    and "get_kernel_task k s = (Inr task, s1)"
    and "skip_regions n k task (s1\<lparr>addr := 0\<rparr>) = Some s2"
    and "call_vm_region_recurse_64 k task s2 = ((KERN_SUCCESS, size', prot), s3)"
    and "kernel_region size' prot"
    and "stack k (calls s3) = (u1, u2)"
    and "skip_strides m ar k task u1 u2 s3 = Some (hdr1, hdr2, s4)"
    and "call_vm_read_overwrite k task (addr s4 + IMAGE_OFFSET ar) (sizeof_mach_hdr_t ar) s4 =
      ((KERN_SUCCESS, data1), s5)"
    and "call_vm_read_overwrite k task (addr s4 + 2 * IMAGE_OFFSET ar) (sizeof_mach_hdr_t ar) s5 =
      ((KERN_SUCCESS, data2), s6)"
    and "magic (mach_hdr_of ar (store hdr1 0 data1)) = MACH_HEADER_MAGIC ar"
    and "magic (mach_hdr_of ar (store hdr2 0 data2)) = MACH_HEADER_MAGIC ar"
    and "cputype (mach_hdr_of ar (store hdr1 0 data1)) = MACH_TYPE ar \<and>
         filetype (mach_hdr_of ar (store hdr1 0 data1)) = MH_EXECUTE"
    and "cputype (mach_hdr_of ar (store hdr2 0 data2)) = MACH_TYPE ar \<and>
         filetype (mach_hdr_of ar (store hdr2 0 data2)) = MH_EXECUTE"
  shows "get_kernel_base ar k s = Some (0, s6) \<and> \<not> base_initialized s6"
proof -
  have "get_kernel_base ar k s = header_loop ar k task u1 u2 s3"
    by (rule get_kernel_base_search [OF assms(1-6)])
  also have "\<dots> = header_loop ar k task hdr1 hdr2 s4"
    by (rule skip_strides_loop [OF assms(7)])
  also have "\<dots> = Some (0, s6)"
    using assms(10-13)
    by (subst header_loop_both_read [OF assms(8,9)]) (simp add: Let_def)
  finally have "get_kernel_base ar k s = Some (0, s6)" .
  moreover have "\<not> base_initialized s6"
    using assms(1) get_kernel_task_keeps [OF assms(2)] skip_regions_keeps [OF assms(3)]
      call_vm_region_recurse_64_keeps [OF assms(4)] skip_strides_keeps [OF assms(7)]
      call_vm_read_overwrite_state [OF assms(8)] call_vm_read_overwrite_state [OF assms(9)]
    by simp
  ultimately show ?thesis by simp
qed

theorem C3_both_candidates_valid_witness:
  "map_option fst (get_kernel_base demo_arch
     (header_kernel [0xFFFFFF8000002000, 0xFFFFFF8000004000]) initial_state) = Some 0 \<and>
   map_option fst (get_kernel_base demo_arch short_read_kernel initial_state) = Some 0 \<and>
   map_option (base_initialized \<circ> snd) (get_kernel_base demo_arch short_read_kernel initial_state) =
     Some False \<and>
   map_option (length \<circ> calls \<circ> snd) (get_kernel_base demo_arch short_read_kernel initial_state) =
     Some 7"
proof -
  have h1: "\<not> base_initialized initial_state"
    by (simp add: initial_state_def)
  have h5: "kernel_region 0x80000000 0"
    by (simp add: call_defs)
  have both: "get_kernel_base demo_arch
      (header_kernel [0xFFFFFF8000002000, 0xFFFFFF8000004000]) initial_state \<noteq> None \<and>
    map_option fst (get_kernel_base demo_arch
      (header_kernel [0xFFFFFF8000002000, 0xFFFFFF8000004000]) initial_state) = Some 0"
  proof -
    let ?k = "header_kernel [0xFFFFFF8000002000, 0xFFFFFF8000004000]"
    define s1 where "s1 = snd (get_kernel_task ?k initial_state)"
    define s2 where "s2 = the (skip_regions (Suc 0) ?k 0x103 (s1\<lparr>addr := 0\<rparr>))"
    define s3 where "s3 = snd (call_vm_region_recurse_64 ?k 0x103 s2)"
    define s5 where "s5 = snd (call_vm_read_overwrite ?k 0x103 0xFFFFFF8000002000 32 s3)"
    define s6 where "s6 = snd (call_vm_read_overwrite ?k 0x103 0xFFFFFF8000004000 32 s5)"
    have h2: "get_kernel_task ?k initial_state = (Inr 0x103, s1)"
      by (simp add: s1_def kernel_defs)
    have h3: "skip_regions (Suc 0) ?k 0x103 (s1\<lparr>addr := 0\<rparr>) = Some s2"
      by (simp add: s2_def s1_def kernel_defs call_defs)
    have a2: "addr s2 = 0xC000"
      by (simp add: s2_def s1_def kernel_defs call_defs)
    have h4: "call_vm_region_recurse_64 ?k 0x103 s2 = ((KERN_SUCCESS, 0x80000000, 0), s3)"
      by (simp add: s3_def a2 kernel_defs call_defs)
    have a3: "addr s3 = 0xFFFFFF8000000000"
      by (simp add: s3_def a2 kernel_defs call_defs)
    have h6: "stack ?k (calls s3) = (blank_header, blank_header)"
      by (simp add: kernel_defs)
    have h7: "skip_strides 0 demo_arch ?k 0x103 blank_header blank_header s3 =
        Some (blank_header, blank_header, s3)"
      by simp
    have h8: "call_vm_read_overwrite ?k 0x103 (addr s3 + IMAGE_OFFSET demo_arch)
        (sizeof_mach_hdr_t demo_arch) s3 = ((KERN_SUCCESS, demo_header), s5)"
      by (simp add: s5_def a3 kernel_defs call_defs demo_arch_def)
    have h9: "call_vm_read_overwrite ?k 0x103 (addr s3 + 2 * IMAGE_OFFSET demo_arch)
        (sizeof_mach_hdr_t demo_arch) s5 = ((KERN_SUCCESS, demo_header), s6)"
      by (simp add: s6_def a3 kernel_defs call_defs demo_arch_def)
    have m: "magic (mach_hdr_of demo_arch (store blank_header 0 demo_header)) =
        MACH_HEADER_MAGIC demo_arch"
      by (simp add: store_headers header_fields)
    have t: "cputype (mach_hdr_of demo_arch (store blank_header 0 demo_header)) =
        MACH_TYPE demo_arch \<and>
        filetype (mach_hdr_of demo_arch (store blank_header 0 demo_header)) = MH_EXECUTE"
      by (simp add: store_headers header_fields)
    from C3_both_candidates_valid [OF h1 h2 h3 h4 h5 h6 h7 h8 h9 m m t t] show ?thesis
      by simp
  qed
  have stale: "get_kernel_base demo_arch short_read_kernel initial_state \<noteq> None \<and>
    map_option fst (get_kernel_base demo_arch short_read_kernel initial_state) = Some 0 \<and>
    map_option (base_initialized \<circ> snd)
      (get_kernel_base demo_arch short_read_kernel initial_state) = Some False \<and>
    map_option (length \<circ> calls \<circ> snd)
      (get_kernel_base demo_arch short_read_kernel initial_state) = Some 7"
  proof -
    let ?k = "short_read_kernel"
    define s1 where "s1 = snd (get_kernel_task ?k initial_state)"
    define s2 where "s2 = the (skip_regions (Suc 0) ?k 0x103 (s1\<lparr>addr := 0\<rparr>))"
    define s3 where "s3 = snd (call_vm_region_recurse_64 ?k 0x103 s2)"
    define s4 where "s4 = s3\<lparr>addr := 0xFFFFFF8000100000, calls := calls s3 @
      [Vm_read_overwrite 0x103 0xFFFFFF8000002000 32 KERN_SUCCESS stale_header,
       Vm_read_overwrite 0x103 0xFFFFFF8000004000 32 KERN_SUCCESS stale_header]\<rparr>"
    define s5 where "s5 = snd (call_vm_read_overwrite ?k 0x103 0xFFFFFF8000102000 32 s4)"
    define s6 where "s6 = snd (call_vm_read_overwrite ?k 0x103 0xFFFFFF8000104000 32 s5)"
    have h2: "get_kernel_task ?k initial_state = (Inr 0x103, s1)"
      by (simp add: s1_def kernel_defs)
    have h3: "skip_regions (Suc 0) ?k 0x103 (s1\<lparr>addr := 0\<rparr>) = Some s2"
      by (simp add: s2_def s1_def kernel_defs call_defs)
    have a2: "addr s2 = 0xC000"
      by (simp add: s2_def s1_def kernel_defs call_defs)
    have c2: "length (calls s2) = 2"
      by (simp add: s2_def s1_def kernel_defs call_defs)
    have h4: "call_vm_region_recurse_64 ?k 0x103 s2 = ((KERN_SUCCESS, 0x80000000, 0), s3)"
      by (simp add: s3_def a2 kernel_defs call_defs)
    have a3: "addr s3 = 0xFFFFFF8000000000"
      by (simp add: s3_def a2 kernel_defs call_defs)
    have c3: "length (calls s3) = 3"
      by (simp add: s3_def c2 call_defs split: prod.splits)
    have h6: "stack ?k (calls s3) = (blank_header, blank_header)"
      by (simp add: kernel_defs)
    have h7: "skip_strides (Suc 0) demo_arch ?k 0x103 blank_header blank_header s3 =
        Some (stale_header, stale_header, s4)"
      by (simp add: s4_def a3 short_read_kernel_def demo_kernel_def KERN_SUCCESS_def
          call_vm_read_overwrite_def demo_arch_def store_headers
          header_fields [unfolded demo_arch_def, simplified])
    have a4: "addr s4 = 0xFFFFFF8000100000"
      by (simp add: s4_def)
    have h8: "call_vm_read_overwrite ?k 0x103 (addr s4 + IMAGE_OFFSET demo_arch)
        (sizeof_mach_hdr_t demo_arch) s4 = ((KERN_SUCCESS, [0xCF]), s5)"
      by (simp add: s5_def a4 kernel_defs call_defs demo_arch_def)
    have h9: "call_vm_read_overwrite ?k 0x103 (addr s4 + 2 * IMAGE_OFFSET demo_arch)
        (sizeof_mach_hdr_t demo_arch) s5 = ((KERN_SUCCESS, demo_header), s6)"
      by (simp add: s6_def a4 kernel_defs call_defs demo_arch_def)
    have c6: "length (calls s6) = 7"
      by (simp add: s6_def s5_def s4_def c3 call_defs split: prod.splits)
    have m1: "magic (mach_hdr_of demo_arch (store stale_header 0 [0xCF])) =
        MACH_HEADER_MAGIC demo_arch"
      by (simp add: store_short header_fields)
    have m2: "magic (mach_hdr_of demo_arch (store stale_header 0 demo_header)) =
        MACH_HEADER_MAGIC demo_arch"
      by (simp add: store_headers header_fields)
    have t1: "cputype (mach_hdr_of demo_arch (store stale_header 0 [0xCF])) =
        MACH_TYPE demo_arch \<and>
        filetype (mach_hdr_of demo_arch (store stale_header 0 [0xCF])) = MH_EXECUTE"
      by (simp add: store_short header_fields)
    have t2: "cputype (mach_hdr_of demo_arch (store stale_header 0 demo_header)) =
        MACH_TYPE demo_arch \<and>
        filetype (mach_hdr_of demo_arch (store stale_header 0 demo_header)) = MH_EXECUTE"
      by (simp add: store_headers header_fields)
    from C3_both_candidates_valid [OF h1 h2 h3 h4 h5 h6 h7 h8 h9 m1 m2 t1 t2] c6
    show ?thesis by simp
  qed
  from both stale show ?thesis by simp
qed

text \<open>
  C4. In the same search, when both headers are read and neither of the magic numbers
  that \<^verbatim>\<open>hdr1\<close> and \<^verbatim>\<open>hdr2\<close> then hold is the expected one, \<^verbatim>\<open>get_kernel_base\<close> does not
  return: its result is that of the loop over the candidate offsets started again
  \<^verbatim>\<open>0x100000\<close> further, with \<^verbatim>\<open>hdr1\<close> and \<^verbatim>\<open>hdr2\<close> as this pass leaves them. When both headers
  are read there and \<^verbatim>\<open>hdr1\<close> and \<^verbatim>\<open>hdr2\<close> then hold exactly one expected magic number
  between them, the function returns the new address plus the offset of that header,
  four header reads after the start of the first of the two passes: it has tried again
  exactly once. For \<^verbatim>\<open>m = 0\<close> the first of the two passes is at the start of the region.
\<close>

theorem C4_neither_matches_retry:
  assumes "\<not> base_initialized s"
    and "get_kernel_task k s = (Inr task, s1)"
    and "skip_regions n k task (s1\<lparr>addr := 0\<rparr>) = Some s2"
    and "call_vm_region_recurse_64 k task s2 = ((KERN_SUCCESS, size', prot), s3)"
    and "kernel_region size' prot"
    and "stack k (calls s3) = (u1, u2)"
    and "skip_strides m ar k task u1 u2 s3 = Some (hdr1, hdr2, s4)"
    and "call_vm_read_overwrite k task (addr s4 + IMAGE_OFFSET ar) (sizeof_mach_hdr_t ar) s4 =
      ((KERN_SUCCESS, data1), s5)"
    and "call_vm_read_overwrite k task (addr s4 + 2 * IMAGE_OFFSET ar) (sizeof_mach_hdr_t ar) s5 =
      ((KERN_SUCCESS, data2), s6)"
    and "magic (mach_hdr_of ar (store hdr1 0 data1)) \<noteq> MACH_HEADER_MAGIC ar"
    and "magic (mach_hdr_of ar (store hdr2 0 data2)) \<noteq> MACH_HEADER_MAGIC ar"
  shows "addr s4 = addr s3 + of_nat m * 0x100000 \<and>
    get_kernel_base ar k s =
      header_loop ar k task (store hdr1 0 data1) (store hdr2 0 data2)
        (s6\<lparr>addr := addr s4 + 0x100000\<rparr>) \<and>
    (call_vm_read_overwrite k task (addr s4 + 0x100000 + IMAGE_OFFSET ar) (sizeof_mach_hdr_t ar)
        (s6\<lparr>addr := addr s4 + 0x100000\<rparr>) = ((KERN_SUCCESS, data3), s7) \<and>
     call_vm_read_overwrite k task (addr s4 + 0x100000 + 2 * IMAGE_OFFSET ar) (sizeof_mach_hdr_t ar)
        s7 = ((KERN_SUCCESS, data4), s8) \<and>
     (magic (mach_hdr_of ar (store (store hdr1 0 data1) 0 data3)) = MACH_HEADER_MAGIC ar) \<noteq>
     (magic (mach_hdr_of ar (store (store hdr2 0 data2) 0 data4)) = MACH_HEADER_MAGIC ar) \<longrightarrow>
       (let base = addr s4 + 0x100000 +
                   (if magic (mach_hdr_of ar (store (store hdr2 0 data2) 0 data4)) =
                       MACH_HEADER_MAGIC ar
                    then 2 * IMAGE_OFFSET ar else IMAGE_OFFSET ar)
        in get_kernel_base ar k s = Some (base, s8\<lparr>addr := base, base_initialized := True\<rparr>)) \<and>
       length (calls s8) = length (calls s4) + 4)"
proof (intro conjI impI; (elim conjE)?)
  show "addr s4 = addr s3 + of_nat m * 0x100000"
    using skip_strides_keeps [OF assms(7)] by simp
  have a: "addr s6 = addr s4"
    using call_vm_read_overwrite_state [OF assms(8)] call_vm_read_overwrite_state [OF assms(9)]
    by simp
  have "get_kernel_base ar k s = header_loop ar k task u1 u2 s3"
    by (rule get_kernel_base_search [OF assms(1-6)])
  also have "\<dots> = header_loop ar k task hdr1 hdr2 s4"
    by (rule skip_strides_loop [OF assms(7)])
  also have "\<dots> = header_loop ar k task (store hdr1 0 data1) (store hdr2 0 data2)
      (s6\<lparr>addr := addr s4 + 0x100000\<rparr>)"
    using assms(10,11)
    by (subst header_loop_both_read [OF assms(8,9)]) (simp add: Let_def a)
  finally show again: "get_kernel_base ar k s =
      header_loop ar k task (store hdr1 0 data1) (store hdr2 0 data2)
        (s6\<lparr>addr := addr s4 + 0x100000\<rparr>)" .
  assume r3: "call_vm_read_overwrite k task (addr s4 + 0x100000 + IMAGE_OFFSET ar) (sizeof_mach_hdr_t ar)
        (s6\<lparr>addr := addr s4 + 0x100000\<rparr>) = ((KERN_SUCCESS, data3), s7)"
    and r4: "call_vm_read_overwrite k task (addr s4 + 0x100000 + 2 * IMAGE_OFFSET ar) (sizeof_mach_hdr_t ar)
        s7 = ((KERN_SUCCESS, data4), s8)"
    and one: "(magic (mach_hdr_of ar (store (store hdr1 0 data1) 0 data3)) = MACH_HEADER_MAGIC ar) \<noteq>
     (magic (mach_hdr_of ar (store (store hdr2 0 data2) 0 data4)) = MACH_HEADER_MAGIC ar)"
  define s6' where "s6' = s6\<lparr>addr := addr s4 + 0x100000\<rparr>"
  have a8: "addr s8 = addr s4 + 0x100000"
    using call_vm_read_overwrite_state [OF r3] call_vm_read_overwrite_state [OF r4]
    by simp
  have r3': "call_vm_read_overwrite k task (addr s6' + IMAGE_OFFSET ar) (sizeof_mach_hdr_t ar) s6' =
      ((KERN_SUCCESS, data3), s7)"
    using r3 by (simp add: s6'_def)
  have r4': "call_vm_read_overwrite k task (addr s6' + 2 * IMAGE_OFFSET ar) (sizeof_mach_hdr_t ar) s7 =
      ((KERN_SUCCESS, data4), s8)"
    using r4 by (simp add: s6'_def)
  have "header_loop ar k task (store hdr1 0 data1) (store hdr2 0 data2) s6' =
     (let base = addr s4 + 0x100000 +
                 (if magic (mach_hdr_of ar (store (store hdr2 0 data2) 0 data4)) =
                     MACH_HEADER_MAGIC ar
                  then 2 * IMAGE_OFFSET ar else IMAGE_OFFSET ar)
      in Some (base, s8\<lparr>addr := base, base_initialized := True\<rparr>))"
    using one
    by (subst header_loop_both_read [OF r3' r4'])
       (cases "magic (mach_hdr_of ar (store (store hdr1 0 data1) 0 data3)) = MACH_HEADER_MAGIC ar";
        cases "magic (mach_hdr_of ar (store (store hdr2 0 data2) 0 data4)) = MACH_HEADER_MAGIC ar";
        simp add: Let_def got_kernel_base_def a8)
  with again show "let base = addr s4 + 0x100000 +
                   (if magic (mach_hdr_of ar (store (store hdr2 0 data2) 0 data4)) =
                       MACH_HEADER_MAGIC ar
                    then 2 * IMAGE_OFFSET ar else IMAGE_OFFSET ar)
        in get_kernel_base ar k s = Some (base, s8\<lparr>addr := base, base_initialized := True\<rparr>)"
    by (simp add: s6'_def Let_def)
  show "length (calls s8) = length (calls s4) + 4"
    using call_vm_read_overwrite_state [OF assms(8)] call_vm_read_overwrite_state [OF assms(9)]
      call_vm_read_overwrite_state [OF r3] call_vm_read_overwrite_state [OF r4]
    by simp
qed

theorem C4_neither_matches_retry_witness:
  "map_option fst (get_kernel_base demo_arch (header_kernel [0xFFFFFF8000104000]) initial_state) =
     Some 0xFFFFFF8000104000 \<and>
   map_option (length \<circ> calls \<circ> snd)
     (get_kernel_base demo_arch (header_kernel [0xFFFFFF8000104000]) initial_state) = Some 7"
proof -
  let ?k = "header_kernel [0xFFFFFF8000104000]"
  define s1 where "s1 = snd (get_kernel_task ?k initial_state)"
  define s2 where "s2 = the (skip_regions (Suc 0) ?k 0x103 (s1\<lparr>addr := 0\<rparr>))"
  define s3 where "s3 = snd (call_vm_region_recurse_64 ?k 0x103 s2)"
  define s5 where "s5 = snd (call_vm_read_overwrite ?k 0x103 0xFFFFFF8000002000 32 s3)"
  define s6 where "s6 = snd (call_vm_read_overwrite ?k 0x103 0xFFFFFF8000004000 32 s5)"
  define s7 where "s7 = snd (call_vm_read_overwrite ?k 0x103 0xFFFFFF8000102000 32
    (s6\<lparr>addr := 0xFFFFFF8000100000\<rparr>))"
  define s8 where "s8 = snd (call_vm_read_overwrite ?k 0x103 0xFFFFFF8000104000 32 s7)"
  have h1: "\<not> base_initialized initial_state"
    by (simp add: initial_state_def)
  have h2: "get_kernel_task ?k initial_state = (Inr 0x103, s1)"
    by (simp add: s1_def kernel_defs)
  have h3: "skip_regions (Suc 0) ?k 0x103 (s1\<lparr>addr := 0\<rparr>) = Some s2"
    by (simp add: s2_def s1_def kernel_defs call_defs)
  have a2: "addr s2 = 0xC000"
    by (simp add: s2_def s1_def kernel_defs call_defs)
  have c2: "length (calls s2) = 2"
    by (simp add: s2_def s1_def kernel_defs call_defs)
  have h4: "call_vm_region_recurse_64 ?k 0x103 s2 = ((KERN_SUCCESS, 0x80000000, 0), s3)"
    by (simp add: s3_def a2 kernel_defs call_defs)
  have h5: "kernel_region 0x80000000 0"
    by (simp add: call_defs)
  have a3: "addr s3 = 0xFFFFFF8000000000"
    by (simp add: s3_def a2 kernel_defs call_defs)
  have c3: "length (calls s3) = 3"
    by (simp add: s3_def c2 call_defs split: prod.splits)
  have h6: "stack ?k (calls s3) = (blank_header, blank_header)"
    by (simp add: kernel_defs)
  have h7: "skip_strides 0 demo_arch ?k 0x103 blank_header blank_header s3 =
      Some (blank_header, blank_header, s3)"
    by simp
  have h8: "call_vm_read_overwrite ?k 0x103 (addr s3 + IMAGE_OFFSET demo_arch)
      (sizeof_mach_hdr_t demo_arch) s3 = ((KERN_SUCCESS, blank_header), s5)"
    by (simp add: s5_def a3 kernel_defs call_defs demo_arch_def)
  have h9: "call_vm_read_overwrite ?k 0x103 (addr s3 + 2 * IMAGE_OFFSET demo_arch)
      (sizeof_mach_hdr_t demo_arch) s5 = ((KERN_SUCCESS, blank_header), s6)"
    by (simp add: s6_def a3 kernel_defs call_defs demo_arch_def)
  have m0: "magic (mach_hdr_of demo_arch (store blank_header 0 blank_header)) \<noteq>
      MACH_HEADER_MAGIC demo_arch"
    by (simp add: store_headers header_fields)
  have h10: "call_vm_read_overwrite ?k 0x103 (addr s3 + 0x100000 + IMAGE_OFFSET demo_arch)
      (sizeof_mach_hdr_t demo_arch) (s6\<lparr>addr := addr s3 + 0x100000\<rparr>) =
      ((KERN_SUCCESS, blank_header), s7)"
    by (simp add: s7_def a3 kernel_defs call_defs demo_arch_def)
  have h11: "call_vm_read_overwrite ?k 0x103 (addr s3 + 0x100000 + 2 * IMAGE_OFFSET demo_arch)
      (sizeof_mach_hdr_t demo_arch) s7 = ((KERN_SUCCESS, demo_header), s8)"
    by (simp add: s8_def a3 kernel_defs call_defs demo_arch_def)
  have m4: "magic (mach_hdr_of demo_arch (store (store blank_header 0 blank_header) 0 demo_header)) =
      MACH_HEADER_MAGIC demo_arch"
    by (simp add: store_headers header_fields)
  have h12: "(magic (mach_hdr_of demo_arch (store (store blank_header 0 blank_header) 0 blank_header)) =
        MACH_HEADER_MAGIC demo_arch) \<noteq>
       (magic (mach_hdr_of demo_arch (store (store blank_header 0 blank_header) 0 demo_header)) =
        MACH_HEADER_MAGIC demo_arch)"
    by (simp add: store_headers header_fields)
  have off: "IMAGE_OFFSET demo_arch = 0x2000"
    by (simp add: demo_arch_def)
  note retry = C4_neither_matches_retry [OF h1 h2 h3 h4 h5 h6 h7 h8 h9 m0 m0,
      of blank_header s7 demo_header s8, THEN conjunct2, THEN conjunct2, THEN mp,
      OF conjI [OF h10 conjI [OF h11 h12]]]
  from retry [THEN conjunct1]
  have "get_kernel_base demo_arch ?k initial_state =
      Some (0xFFFFFF8000000000 + 0x100000 + 2 * 0x2000,
            s8\<lparr>addr := 0xFFFFFF8000000000 + 0x100000 + 2 * 0x2000, base_initialized := True\<rparr>)"
    by (simp add: m4 a3 off)
  moreover from retry [THEN conjunct2] have "length (calls s8) = 7"
    by (simp add: c3)
  ultimately show ?thesis by simp
qed

subsection \<open>Chunked transfers\<close>

lemma unat_MAX_CHUNK_SIZE: "unat MAX_CHUNK_SIZE = 4095"
  by (simp add: MAX_CHUNK_SIZE_def)

lemma unat_chunk_of: "unat (chunk_of r) = min (unat r) 4095"
  by (auto simp: chunk_of_def word_less_nat_alt unat_MAX_CHUNK_SIZE)

lemma chunk_of_le: "chunk_of r \<le> r" "chunk_of r \<le> MAX_CHUNK_SIZE"
  by (simp_all add: word_le_nat_alt unat_chunk_of unat_MAX_CHUNK_SIZE)

lemma chunk_of_0: "chunk_of r = 0 \<longleftrightarrow> r = 0"
proof -
  have "unat (chunk_of r) = 0 \<longleftrightarrow> unat r = 0"
    by (simp add: unat_chunk_of min_def)
  then show ?thesis by (simp only: unat_eq_0)
qed

lemma chunks_count:
  assumes "0 < (r::nat)"
  shows "(r + 4094) div 4095 = Suc ((r - min r 4095 + 4094) div 4095)"
proof (cases "r \<le> 4095")
  case True
  with assms have "(r + 4094) div 4095 = 1"
    by (intro div_nat_eqI) simp_all
  with True show ?thesis by (simp add: min_def)
next
  case False
  then have "r + 4094 = (r - 4095 + 4094) + 4095" by simp
  then have "(r + 4094) div 4095 = Suc ((r - 4095 + 4094) div 4095)"
    by (metis div_add_self2 Suc_eq_plus1 zero_neq_numeral)
  with False show ?thesis by (simp add: min_def)
qed

lemma chunk_of_nat: "chunk_of r = of_nat (min (unat r) 4095)"
proof -
  have "chunk_of r = of_nat (unat (chunk_of r))" by simp
  then show ?thesis by (simp only: unat_chunk_of)
qed

lemma chunks_of_range_0: "chunks_of_range a 0 = []"
  by (simp add: chunks_of_range_def unat_MAX_CHUNK_SIZE)

lemma chunks_of_range_step:
  assumes "r \<noteq> 0"
  shows "chunks_of_range a r =
    (a, chunk_of r) # chunks_of_range (a + chunk_of r) (r - chunk_of r)"
proof -
  define R where "R = unat r"
  have pos: "0 < R" using assms by (simp add: R_def unat_gt_0)
  have ur: "unat (r - chunk_of r) = R - min R 4095"
    using chunk_of_le(1) [of r] by (simp add: unat_sub unat_chunk_of R_def)
  define n where "n = (R - min R 4095 + 4094) div 4095"
  define f where "f = (\<lambda>i. (a + of_nat i * MAX_CHUNK_SIZE,
      (of_nat (min (unat MAX_CHUNK_SIZE) (unat r - i * unat MAX_CHUNK_SIZE)) :: vm_size_t)))"
  define g where "g = (\<lambda>i. (a + chunk_of r + of_nat i * MAX_CHUNK_SIZE,
      (of_nat (min (unat MAX_CHUNK_SIZE) (unat (r - chunk_of r) - i * unat MAX_CHUNK_SIZE)) :: vm_size_t)))"
  have cnt: "(unat r + unat MAX_CHUNK_SIZE - 1) div unat MAX_CHUNK_SIZE = Suc n"
    using chunks_count [OF pos] by (simp add: unat_MAX_CHUNK_SIZE R_def n_def)
  have cnt': "(unat (r - chunk_of r) + unat MAX_CHUNK_SIZE - 1) div unat MAX_CHUNK_SIZE = n"
    by (simp add: unat_MAX_CHUNK_SIZE ur n_def)
  have lhs: "chunks_of_range a r = map f [0..<Suc n]"
    by (simp only: chunks_of_range_def cnt f_def)
  have rhs: "chunks_of_range (a + chunk_of r) (r - chunk_of r) = map g [0..<n]"
    by (simp only: chunks_of_range_def cnt' g_def)
  have "[0..<Suc n] = 0 # map Suc [0..<n]"
    by (simp only: upt_conv_Cons [OF zero_less_Suc] map_Suc_upt)
  then have "map f [0..<Suc n] = f 0 # map (\<lambda>i. f (Suc i)) [0..<n]"
    by (simp add: comp_def)
  moreover have "f 0 = (a, chunk_of r)"
    by (simp add: f_def chunk_of_nat unat_MAX_CHUNK_SIZE min.commute)
  moreover have "map (\<lambda>i. f (Suc i)) [0..<n] = map g [0..<n]"
  proof (cases "R \<le> 4095")
    case True
    then have "n = 0" by (simp add: n_def min_def)
    then show ?thesis by simp
  next
    case False
    then have c: "chunk_of r = MAX_CHUNK_SIZE"
      by (simp add: chunk_of_nat R_def min_def MAX_CHUNK_SIZE_def)
    have ur2: "unat (r - chunk_of r) = R - 4095"
      using ur False by (simp add: min_def)
    have "f (Suc i) = g i" for i
      by (simp only: f_def g_def ur2 unat_MAX_CHUNK_SIZE R_def [symmetric])
         (simp add: c algebra_simps)
    then show ?thesis by simp
  qed
  ultimately show ?thesis by (simp only: lhs rhs)
qed

lemma write_loop_full:
  assumes ok: "\<And>h x d n. vm_write k h task x d n = KERN_SUCCESS"
  shows "unat a + unat r = unat e \<Longrightarrow>
    \<exists>evs. write_loop k task e a r bw data s = Some (bw + r, s\<lparr>calls := calls s @ evs\<rparr>) \<and>
          length evs = (unat r + 4094) div 4095 \<and>
          (\<forall>c\<in>set evs. \<exists>n. chunk c = Some n \<and> n \<le> MAX_CHUNK_SIZE) \<and>
          map request evs = map (\<lambda>(x, n). Some (task, x, n)) (chunks_of_range a r) \<and>
          sum_list (map moved evs) = r"
proof (induction "unat r" arbitrary: a r bw s rule: less_induct)
  case less
  show ?case
  proof (cases "r = 0")
    case True
    with less.prems have "\<not> a < e" by (simp add: word_less_nat_alt)
    then have "write_loop k task e a r bw data s = Some (bw + r, s\<lparr>calls := calls s @ []\<rparr>)"
      using True by (subst write_loop.simps) simp
    then show ?thesis using True by (intro exI [of _ "[]"]) (simp add: chunks_of_range_0)
  next
    case False
    define c where "c = chunk_of r"
    have c0: "c \<noteq> 0" using False by (simp add: c_def chunk_of_0)
    have cr: "unat c \<le> unat r" by (simp add: c_def unat_chunk_of)
    have pos: "0 < unat r" using False by (simp add: unat_gt_0)
    have lt: "a < e" using less.prems pos by (simp add: word_less_nat_alt)
    have "unat a + unat c < 2 ^ LENGTH(64)"
      using less.prems cr unsigned_less [of e, where 'a = nat] by simp
    then have ua: "unat (a + c) = unat a + unat c"
      by (simp only: unat_add_lem)
    have ur: "unat (r - c) = unat r - unat c"
      using chunk_of_le(1) [of r] by (simp add: c_def unat_sub)
    have cpos: "0 < unat c" using c0 by (simp add: unat_gt_0)
    have smaller: "unat (r - c) < unat r"
      using ur cpos pos by simp
    have inv: "unat (a + c) + unat (r - c) = unat e"
      using ua ur cr less.prems by simp
    define ev where "ev = Vm_write task a (take (unat c) (drop (unat bw) data)) c KERN_SUCCESS"
    define s1 where "s1 = s\<lparr>calls := calls s @ [ev]\<rparr>"
    from less.hyps [OF smaller inv, of "bw + c" s1]
    obtain evs where rest: "write_loop k task e (a + c) (r - c) (bw + c) data s1 =
        Some (bw + c + (r - c), s1\<lparr>calls := calls s1 @ evs\<rparr>)"
      and len: "length evs = (unat (r - c) + 4094) div 4095"
      and small: "\<forall>c\<in>set evs. \<exists>n. chunk c = Some n \<and> n \<le> MAX_CHUNK_SIZE"
      and reqs: "map request evs =
        map (\<lambda>(x, n). Some (task, x, n)) (chunks_of_range (a + c) (r - c))"
      and total: "sum_list (map moved evs) = r - c"
      by blast
    have "write_loop k task e a r bw data s =
        write_loop k task e (a + c) (r - c) (bw + c) data s1"
      by (subst write_loop.simps)
         (simp add: lt call_vm_write_def ok Let_def c_def chunk_of_def s1_def ev_def)
    with rest have "write_loop k task e a r bw data s = Some (bw + r, s\<lparr>calls := calls s @ ev # evs\<rparr>)"
      by (simp add: s1_def)
    moreover have "length (ev # evs) = (unat r + 4094) div 4095"
    proof -
      have "unat (r - c) = unat r - min (unat r) 4095"
        using ur by (simp add: c_def unat_chunk_of)
      then show ?thesis
        by (simp only: length_Cons len chunks_count [OF pos])
    qed
    moreover have "\<forall>c\<in>set (ev # evs). \<exists>n. chunk c = Some n \<and> n \<le> MAX_CHUNK_SIZE"
      using small chunk_of_le(2) [of r] by (simp add: ev_def c_def)
    moreover have "map request (ev # evs) =
        map (\<lambda>(x, n). Some (task, x, n)) (chunks_of_range a r)"
      using reqs by (simp add: chunks_of_range_step [OF False] ev_def c_def)
    moreover have "sum_list (map moved (ev # evs)) = r"
      using total by (simp add: ev_def)
    ultimately show ?thesis by blast
  qed
qed

lemma read_loop_full:
  assumes ok: "\<And>h x n. fst (vm_read_overwrite k h task x n) = KERN_SUCCESS \<and>
      length (snd (vm_read_overwrite k h task x n)) = unat n"
  shows "unat a + unat r = unat e \<Longrightarrow>
    \<exists>buf' evs. read_loop k task e a r br buf s = Some (br + r, buf', s\<lparr>calls := calls s @ evs\<rparr>) \<and>
          length evs = (unat r + 4094) div 4095 \<and>
          (\<forall>c\<in>set evs. \<exists>n. chunk c = Some n \<and> n \<le> MAX_CHUNK_SIZE) \<and>
          map request evs = map (\<lambda>(x, n). Some (task, x, n)) (chunks_of_range a r) \<and>
          sum_list (map moved evs) = r"
proof (induction "unat r" arbitrary: a r br buf s rule: less_induct)
  case less
  show ?case
  proof (cases "r = 0")
    case True
    with less.prems have "\<not> a < e" by (simp add: word_less_nat_alt)
    then have "read_loop k task e a r br buf s = Some (br + r, buf, s\<lparr>calls := calls s @ []\<rparr>)"
      using True by (subst read_loop.simps) simp
    then show ?thesis using True
      by (intro exI [of _ buf] exI [of _ "[]"]) (simp add: chunks_of_range_0)
  next
    case False
    define c where "c = chunk_of r"
    have c0: "c \<noteq> 0" using False by (simp add: c_def chunk_of_0)
    have cr: "unat c \<le> unat r" by (simp add: c_def unat_chunk_of)
    have pos: "0 < unat r" using False by (simp add: unat_gt_0)
    have lt: "a < e" using less.prems pos by (simp add: word_less_nat_alt)
    have "unat a + unat c < 2 ^ LENGTH(64)"
      using less.prems cr unsigned_less [of e, where 'a = nat] by simp
    then have ua: "unat (a + c) = unat a + unat c"
      by (simp only: unat_add_lem)
    have ur: "unat (r - c) = unat r - unat c"
      using chunk_of_le(1) [of r] by (simp add: c_def unat_sub)
    have cpos: "0 < unat c" using c0 by (simp add: unat_gt_0)
    have smaller: "unat (r - c) < unat r"
      using ur cpos pos by simp
    have inv: "unat (a + c) + unat (r - c) = unat e"
      using ua ur cr less.prems by simp
    define d where "d = snd (vm_read_overwrite k (calls s) task a c)"
    have rd: "vm_read_overwrite k (calls s) task a c = (KERN_SUCCESS, d)"
      using ok [of "calls s" a c] by (simp add: d_def prod_eq_iff)
    have ld: "length d = unat c"
      using ok [of "calls s" a c] by (simp add: d_def)
    then have wd: "(of_nat (length d) :: vm_size_t) = c" by simp
    define ev where "ev = Vm_read_overwrite task a c KERN_SUCCESS d"
    define s1 where "s1 = s\<lparr>calls := calls s @ [ev]\<rparr>"
    define buf1 where "buf1 = store buf (unat br) d"
    from less.hyps [OF smaller inv, of "br + c" buf1 s1]
    obtain buf' evs where rest: "read_loop k task e (a + c) (r - c) (br + c) buf1 s1 =
        Some (br + c + (r - c), buf', s1\<lparr>calls := calls s1 @ evs\<rparr>)"
      and len: "length evs = (unat (r - c) + 4094) div 4095"
      and small: "\<forall>c\<in>set evs. \<exists>n. chunk c = Some n \<and> n \<le> MAX_CHUNK_SIZE"
      and reqs: "map request evs =
        map (\<lambda>(x, n). Some (task, x, n)) (chunks_of_range (a + c) (r - c))"
      and total: "sum_list (map moved evs) = r - c"
      by blast
    have "read_loop k task e a r br buf s =
        read_loop k task e (a + c) (r - c) (br + c) buf1 s1"
      by (subst read_loop.simps)
         (simp add: lt call_vm_read_overwrite_def rd wd c0 Let_def c_def [symmetric]
            chunk_of_def [symmetric] s1_def ev_def buf1_def)
    with rest have "read_loop k task e a r br buf s =
        Some (br + r, buf', s\<lparr>calls := calls s @ ev # evs\<rparr>)"
      by (simp add: s1_def)
    moreover have "length (ev # evs) = (unat r + 4094) div 4095"
    proof -
      have "unat (r - c) = unat r - min (unat r) 4095"
        using ur by (simp add: c_def unat_chunk_of)
      then show ?thesis
        by (simp only: length_Cons len chunks_count [OF pos])
    qed
    moreover have "\<forall>c\<in>set (ev # evs). \<exists>n. chunk c = Some n \<and> n \<le> MAX_CHUNK_SIZE"
      using small chunk_of_le(2) [of r] by (simp add: ev_def c_def)
    moreover have "map request (ev # evs) =
        map (\<lambda>(x, n). Some (task, x, n)) (chunks_of_range a r)"
      using reqs by (simp add: chunks_of_range_step [OF False] ev_def c_def)
    moreover have "sum_list (map moved (ev # evs)) = r"
      using total by (simp add: ev_def wd)
    ultimately show ?thesis by blast
  qed
qed

lemma read_loop_sum:
  assumes "read_loop k task e a r br buf s = Some y"
  shows "\<exists>evs. snd (snd y) = s\<lparr>calls := calls s @ evs\<rparr> \<and>
    (\<forall>c\<in>set evs. \<exists>m. chunk c = Some m \<and> m \<le> MAX_CHUNK_SIZE) \<and>
    sequential task a r evs \<and> fst (snd y) = fill buf br evs \<and>
    fst y = br + sum_list (map moved evs)"
proof (rule read_loop.raw_induct [where P = "\<lambda>k task e a r br buf s y.
    \<exists>evs. snd (snd y) = s\<lparr>calls := calls s @ evs\<rparr> \<and>
    (\<forall>c\<in>set evs. \<exists>m. chunk c = Some m \<and> m \<le> MAX_CHUNK_SIZE) \<and>
    sequential task a r evs \<and> fst (snd y) = fill buf br evs \<and>
    fst y = br + sum_list (map moved evs)",
    OF _ assms], goal_cases)
  case (1 read_loop k task e a r br buf s y)
  show ?case
  proof (cases "a < e")
    case False
    with 1(2) have "y = (br, buf, s)" by simp
    then show ?thesis by (intro exI [of _ "[]"]) simp
  next
    case True
    obtain ret d s1 where rd: "call_vm_read_overwrite k task a (chunk_of r) s = ((ret, d), s1)"
      by (metis surj_pair)
    define c where "c = (of_nat (length d) :: vm_size_t)"
    define ev where "ev = Vm_read_overwrite task a (chunk_of r) ret d"
    have s1: "s1 = s\<lparr>calls := calls s @ [ev]\<rparr>"
      using call_vm_read_overwrite_state [OF rd] by (simp add: ev_def)
    have small: "\<exists>m. chunk ev = Some m \<and> m \<le> MAX_CHUNK_SIZE"
      using chunk_of_le(2) [of r] by (simp add: ev_def)
    have req: "request ev = Some (task, a, chunk_of r)" "bytes_of ev = d"
      by (simp_all add: ev_def)
    from 1(2) True rd have eq: "(if ret \<noteq> KERN_SUCCESS \<or> c = 0
        then Some (br, store buf (unat br) d, s1)
        else read_loop k task e (a + c) (r - c) (br + c) (store buf (unat br) d) s1) = Some y"
      by (auto simp: chunk_of_def [symmetric] Let_def c_def split: if_splits)
    show ?thesis
    proof (cases "ret \<noteq> KERN_SUCCESS \<or> c = 0")
      case True
      with eq have "y = (br, store buf (unat br) d, s1)" by simp
      moreover from True have "moved ev = 0" by (auto simp: ev_def c_def)
      ultimately show ?thesis using small req by (intro exI [of _ "[ev]"]) (simp add: s1)
    next
      case False
      with eq have "read_loop k task e (a + c) (r - c) (br + c) (store buf (unat br) d) s1 = Some y"
        by simp
      from 1(1) [OF this] obtain evs where
        evs: "snd (snd y) = s1\<lparr>calls := calls s1 @ evs\<rparr>"
          "\<forall>c\<in>set evs. \<exists>m. chunk c = Some m \<and> m \<le> MAX_CHUNK_SIZE"
          "sequential task (a + c) (r - c) evs"
          "fst (snd y) = fill (store buf (unat br) d) (br + c) evs"
          "fst y = br + c + sum_list (map moved evs)"
        by blast
      from False have "moved ev = c" by (simp add: ev_def c_def)
      with evs small req show ?thesis by (intro exI [of _ "ev # evs"]) (simp add: s1)
    qed
  qed
qed

lemma write_loop_sum:
  assumes "write_loop k task e a r bw data s = Some y"
  shows "\<exists>evs. snd y = s\<lparr>calls := calls s @ evs\<rparr> \<and>
    (\<forall>c\<in>set evs. \<exists>m. chunk c = Some m \<and> m \<le> MAX_CHUNK_SIZE) \<and>
    sequential task a r evs \<and> drawn data bw evs \<and>
    fst y = bw + sum_list (map moved evs)"
proof (rule write_loop.raw_induct [where P = "\<lambda>k task e a r bw data s y.
    \<exists>evs. snd y = s\<lparr>calls := calls s @ evs\<rparr> \<and>
    (\<forall>c\<in>set evs. \<exists>m. chunk c = Some m \<and> m \<le> MAX_CHUNK_SIZE) \<and>
    sequential task a r evs \<and> drawn data bw evs \<and>
    fst y = bw + sum_list (map moved evs)",
    OF _ assms], goal_cases)
  case (1 write_loop k task e a r bw data s y)
  show ?case
  proof (cases "a < e")
    case False
    with 1(2) have "y = (bw, s)" by simp
    then show ?thesis by (intro exI [of _ "[]"]) simp
  next
    case True
    define c where "c = chunk_of r"
    obtain ret s1 where wr:
      "call_vm_write k task a (take (unat c) (drop (unat bw) data)) c s = (ret, s1)"
      by (metis surj_pair)
    define ev where "ev = Vm_write task a (take (unat c) (drop (unat bw) data)) c ret"
    have s1: "s1 = s\<lparr>calls := calls s @ [ev]\<rparr>"
      using call_vm_write_state [OF wr] by (simp add: ev_def)
    have small: "\<exists>m. chunk ev = Some m \<and> m \<le> MAX_CHUNK_SIZE"
      using chunk_of_le(2) [of r] by (simp add: ev_def c_def)
    have req: "request ev = Some (task, a, chunk_of r)" "chunk ev = Some c"
        "bytes_of ev = take (unat c) (drop (unat bw) data)"
      by (simp_all add: ev_def c_def)
    from 1(2) True wr have eq: "(if ret \<noteq> KERN_SUCCESS then Some (bw, s1)
        else write_loop k task e (a + c) (r - c) (bw + c) data s1) = Some y"
      by (simp add: chunk_of_def [symmetric] Let_def c_def [symmetric])
    show ?thesis
    proof (cases "ret \<noteq> KERN_SUCCESS")
      case True
      with eq have "y = (bw, s1)" by simp
      moreover from True have "moved ev = 0" by (auto simp: ev_def)
      ultimately show ?thesis using small req by (intro exI [of _ "[ev]"]) (simp add: s1)
    next
      case False
      with eq have "write_loop k task e (a + c) (r - c) (bw + c) data s1 = Some y"
        by simp
      from 1(1) [OF this] obtain evs where
        evs: "snd y = s1\<lparr>calls := calls s1 @ evs\<rparr>"
          "\<forall>c\<in>set evs. \<exists>m. chunk c = Some m \<and> m \<le> MAX_CHUNK_SIZE"
          "sequential task (a + c) (r - c) evs" "drawn data (bw + c) evs"
          "fst y = bw + c + sum_list (map moved evs)"
        by blast
      from False have "moved ev = c" by (simp add: ev_def)
      with evs small req show ?thesis by (intro exI [of _ "ev # evs"]) (simp add: s1)
    qed
  qed
qed

lemma read_kernel_full:
  assumes task: "get_kernel_task k s = (Inr task, s1)"
    and nowrap: "unat a + unat L < 2 ^ 64"
    and ok: "\<forall>h x n. fst (vm_read_overwrite k h task x n) = KERN_SUCCESS \<and>
      length (snd (vm_read_overwrite k h task x n)) = unat n"
  shows "\<exists>buf' evs. read_kernel k a L buf s = Some (L, buf', s1\<lparr>calls := calls s1 @ evs\<rparr>) \<and>
          length evs = (unat L + unat MAX_CHUNK_SIZE - 1) div unat MAX_CHUNK_SIZE \<and>
          (\<forall>c\<in>set evs. \<exists>n. chunk c = Some n \<and> n \<le> MAX_CHUNK_SIZE) \<and>
          map request evs = map (\<lambda>(x, n). Some (task, x, n)) (chunks_of_range a L) \<and>
          sum_list (map moved evs) = L"
proof -
  from nowrap have "unat a + unat L = unat (a + L)"
    by (simp add: unat_add_lem [THEN iffD1])
  moreover have "(unat L + unat MAX_CHUNK_SIZE - 1) div unat MAX_CHUNK_SIZE = (unat L + 4094) div 4095"
    by (simp add: unat_MAX_CHUNK_SIZE)
  moreover have "read_kernel k a L buf s = read_loop k task (a + L) a L 0 buf s1"
    using task by (simp add: read_kernel_def)
  ultimately show ?thesis
    using read_loop_full [OF ok [rule_format], of a L "a + L" 0 buf s1] by simp
qed

lemma write_kernel_full:
  assumes task: "get_kernel_task k s = (Inr task, s1)"
    and nowrap: "unat a + unat L < 2 ^ 64"
    and ok: "\<forall>h x d n. vm_write k h task x d n = KERN_SUCCESS"
  shows "\<exists>evs. write_kernel k a data L s = Some (L, s1\<lparr>calls := calls s1 @ evs\<rparr>) \<and>
          length evs = (unat L + unat MAX_CHUNK_SIZE - 1) div unat MAX_CHUNK_SIZE \<and>
          (\<forall>c\<in>set evs. \<exists>n. chunk c = Some n \<and> n \<le> MAX_CHUNK_SIZE) \<and>
          map request evs = map (\<lambda>(x, n). Some (task, x, n)) (chunks_of_range a L) \<and>
          sum_list (map moved evs) = L"
proof -
  from nowrap have "unat a + unat L = unat (a + L)"
    by (simp add: unat_add_lem [THEN iffD1])
  moreover have "(unat L + unat MAX_CHUNK_SIZE - 1) div unat MAX_CHUNK_SIZE = (unat L + 4094) div 4095"
    by (simp add: unat_MAX_CHUNK_SIZE)
  moreover have "write_kernel k a data L s = write_loop k task (a + L) a L 0 data s1"
    using task by (simp add: write_kernel_def)
  ultimately show ?thesis
    using write_loop_full [OF ok [rule_format], of a L "a + L" 0 data s1] by simp
qed

lemma read_kernel_chunks:
  assumes task: "get_kernel_task k s = (Inr task, s1)"
    and ret: "read_kernel k a L buf s = Some (n, buf', s')"
  shows "\<exists>evs. s' = s1\<lparr>calls := calls s1 @ evs\<rparr> \<and>
    (\<forall>c\<in>set evs. \<exists>m. chunk c = Some m \<and> m \<le> MAX_CHUNK_SIZE) \<and>
    sequential task a L evs \<and> buf' = fill buf 0 evs \<and>
    n = sum_list (map moved evs)"
proof -
  from task ret have "read_loop k task (a + L) a L 0 buf s1 = Some (n, buf', s')"
    by (simp add: read_kernel_def)
  from read_loop_sum [OF this] show ?thesis by simp
qed

lemma write_kernel_chunks:
  assumes task: "get_kernel_task k s = (Inr task, s1)"
    and ret: "write_kernel k a data L s = Some (n, s')"
  shows "\<exists>evs. s' = s1\<lparr>calls := calls s1 @ evs\<rparr> \<and>
    (\<forall>c\<in>set evs. \<exists>m. chunk c = Some m \<and> m \<le> MAX_CHUNK_SIZE) \<and>
    sequential task a L evs \<and> drawn data 0 evs \<and>
    n = sum_list (map moved evs)"
proof -
  from task ret have "write_loop k task (a + L) a L 0 data s1 = Some (n, s')"
    by (simp add: write_kernel_def)
  from write_loop_sum [OF this] show ?thesis by simp
qed

lemma loop_entry:
  fixes a L :: vm_address_t
  shows "\<not> a < a + L \<or> unat a + unat L = unat (a + L)"
proof (cases "unat a + unat L < 2 ^ LENGTH(64)")
  case True
  then show ?thesis by (simp only: unat_add_lem) simp
next
  case False
  have "unat (a + L) = (unat a + unat L) mod 2 ^ LENGTH(64)"
    by (simp add: unat_word_ariths)
  also have "\<dots> = unat a + unat L - 2 ^ LENGTH(64)"
    using False unsigned_less [of a, where 'a = nat] unsigned_less [of L, where 'a = nat]
    by (simp add: mod_if)
  also have "\<dots> \<le> unat a"
    using unsigned_less [of L, where 'a = nat] by simp
  finally have "\<not> a < a + L" by (simp add: word_less_nat_alt)
  then show ?thesis by simp
qed

lemma write_loop_returns:
  "unat a + unat r = unat e \<Longrightarrow> \<exists>y. write_loop k task e a r bw data s = Some y"
proof (induction "unat r" arbitrary: a r bw s rule: less_induct)
  case less
  show ?case
  proof (cases "r = 0")
    case True
    with less.prems have "\<not> a < e" by (simp add: word_less_nat_alt)
    then have "write_loop k task e a r bw data s = Some (bw, s)"
      by (subst write_loop.simps) simp
    then show ?thesis by blast
  next
    case False
    define c where "c = chunk_of r"
    have c0: "c \<noteq> 0" using False by (simp add: c_def chunk_of_0)
    have cr: "unat c \<le> unat r" by (simp add: c_def unat_chunk_of)
    have pos: "0 < unat r" using False by (simp add: unat_gt_0)
    have lt: "a < e" using less.prems pos by (simp add: word_less_nat_alt)
    have "unat a + unat c < 2 ^ LENGTH(64)"
      using less.prems cr unsigned_less [of e, where 'a = nat] by simp
    then have ua: "unat (a + c) = unat a + unat c"
      by (simp only: unat_add_lem)
    have ur: "unat (r - c) = unat r - unat c"
      using chunk_of_le(1) [of r] by (simp add: c_def unat_sub)
    have cpos: "0 < unat c" using c0 by (simp add: unat_gt_0)
    have smaller: "unat (r - c) < unat r"
      using ur cpos pos by simp
    have inv: "unat (a + c) + unat (r - c) = unat e"
      using ua ur cr less.prems by simp
    obtain ret s1 where wr:
      "call_vm_write k task a (take (unat c) (drop (unat bw) data)) c s = (ret, s1)"
      by (metis surj_pair)
    have step: "write_loop k task e a r bw data s =
        (if ret \<noteq> KERN_SUCCESS then Some (bw, s1)
         else write_loop k task e (a + c) (r - c) (bw + c) data s1)"
      by (subst write_loop.simps)
         (simp add: lt wr chunk_of_def [symmetric] Let_def c_def [symmetric])
    show ?thesis
    proof (cases "ret \<noteq> KERN_SUCCESS")
      case True
      with step show ?thesis by simp
    next
      case False
      with step less.hyps [OF smaller inv, of "bw + c" s1] show ?thesis by simp
    qed
  qed
qed

lemma read_loop_returns:
  assumes bounded: "\<And>h x n. length (snd (vm_read_overwrite k h task x n)) \<le> unat n"
  shows "unat a + unat r = unat e \<Longrightarrow> \<exists>y. read_loop k task e a r br buf s = Some y"
proof (induction "unat r" arbitrary: a r br buf s rule: less_induct)
  case less
  show ?case
  proof (cases "r = 0")
    case True
    with less.prems have "\<not> a < e" by (simp add: word_less_nat_alt)
    then have "read_loop k task e a r br buf s = Some (br, buf, s)"
      by (subst read_loop.simps) simp
    then show ?thesis by blast
  next
    case False
    have pos: "0 < unat r" using False by (simp add: unat_gt_0)
    have lt: "a < e" using less.prems pos by (simp add: word_less_nat_alt)
    obtain ret d s1 where rd: "call_vm_read_overwrite k task a (chunk_of r) s = ((ret, d), s1)"
      by (metis surj_pair)
    then have d: "d = snd (vm_read_overwrite k (calls s) task a (chunk_of r))"
      by (auto simp: call_vm_read_overwrite_def split: prod.splits)
    define c where "c = (of_nat (length d) :: vm_size_t)"
    have "length d \<le> unat (chunk_of r)"
      using bounded [of "calls s" a "chunk_of r"] by (simp add: d)
    then have ld: "length d \<le> unat r"
      by (simp add: unat_chunk_of)
    then have "length d < 2 ^ LENGTH(64)"
      using unsigned_less [of r, where 'a = nat] by simp
    then have uc: "unat c = length d"
      by (simp add: c_def unat_of_nat)
    have step: "read_loop k task e a r br buf s =
        (if ret \<noteq> KERN_SUCCESS \<or> c = 0 then Some (br, store buf (unat br) d, s1)
         else read_loop k task e (a + c) (r - c) (br + c) (store buf (unat br) d) s1)"
      by (subst read_loop.simps)
         (simp add: lt rd chunk_of_def [symmetric] Let_def c_def [symmetric])
    show ?thesis
    proof (cases "ret \<noteq> KERN_SUCCESS \<or> c = 0")
      case True
      with step show ?thesis by simp
    next
      case False
      then have cpos: "0 < unat c" by (simp add: unat_gt_0)
      have cr: "unat c \<le> unat r" using ld uc by simp
      then have "c \<le> r" by (simp add: word_le_nat_alt)
      then have ur: "unat (r - c) = unat r - unat c" by (rule unat_sub)
      have "unat a + unat c < 2 ^ LENGTH(64)"
        using less.prems cr unsigned_less [of e, where 'a = nat] by simp
      then have ua: "unat (a + c) = unat a + unat c"
        by (simp only: unat_add_lem)
      have smaller: "unat (r - c) < unat r"
        using ur cpos pos by simp
      have inv: "unat (a + c) + unat (r - c) = unat e"
        using ua ur cr less.prems by simp
      from False step less.hyps [OF smaller inv, of "br + c" "store buf (unat br) d" s1]
      show ?thesis by simp
    qed
  qed
qed

lemma write_kernel_returns: "\<exists>y. write_kernel k a data L s = Some y"
proof (cases "get_kernel_task k s")
  case (Pair r s1)
  show ?thesis
  proof (cases r)
    case (Inl ret)
    with Pair show ?thesis by (simp add: write_kernel_def)
  next
    case (Inr task)
    with Pair have wk: "write_kernel k a data L s = write_loop k task (a + L) a L 0 data s1"
      by (simp add: write_kernel_def)
    from loop_entry [of a L] show ?thesis
    proof
      assume "\<not> a < a + L"
      then have "write_loop k task (a + L) a L 0 data s1 = Some (0, s1)"
        by (subst write_loop.simps) simp
      with wk show ?thesis by simp
    next
      assume "unat a + unat L = unat (a + L)"
      from write_loop_returns [OF this] wk show ?thesis by simp
    qed
  qed
qed

lemma read_kernel_returns:
  assumes "\<forall>h task x n. length (snd (vm_read_overwrite k h task x n)) \<le> unat n"
  shows "\<exists>y. read_kernel k a L buf s = Some y"
proof (cases "get_kernel_task k s")
  case (Pair r s1)
  show ?thesis
  proof (cases r)
    case (Inl ret)
    with Pair show ?thesis by (simp add: read_kernel_def)
  next
    case (Inr task)
    with Pair have rk: "read_kernel k a L buf s = read_loop k task (a + L) a L 0 buf s1"
      by (simp add: read_kernel_def)
    from loop_entry [of a L] show ?thesis
    proof
      assume "\<not> a < a + L"
      then have "read_loop k task (a + L) a L 0 buf s1 = Some (0, buf, s1)"
        by (subst read_loop.simps) simp
      with rk show ?thesis by simp
    next
      assume "unat a + unat L = unat (a + L)"
      from read_loop_returns [OF assms [rule_format] this] rk show ?thesis by simp
    qed
  qed
qed

text \<open>
  C5, as amended. \<^verbatim>\<open>read_kernel\<close> and \<^verbatim>\<open>write_kernel\<close> have the task port. Whenever one of
  them returns, the calls it has logged are transfers of at most \<^verbatim>\<open>MAX_CHUNK_SIZE\<close> bytes
  each, they follow one another from the address \<^verbatim>\<open>a\<close> on, each where the bytes moved so
  far end and for what remains of \<^verbatim>\<open>L\<close> up to the maximum, the bytes of each are put
  into, or taken from, the buffer of the caller at the offset where the bytes moved so
  far end, and the count returned is the sum of the bytes these calls have moved. When
  moreover the end of the range, \<^verbatim>\<open>a + L\<close>, does not wrap around the 64 bits of an address
  and every transfer is carried out in full, the function returns \<^verbatim>\<open>L\<close> after exactly
  \<^verbatim>\<open>L\<close> divided by \<^verbatim>\<open>MAX_CHUNK_SIZE\<close>, rounded up, transfers, and these are the chunks into
  which the range is cut, in their order. \<^verbatim>\<open>write_kernel\<close> always returns, and
  \<^verbatim>\<open>read_kernel\<close> returns whenever no transfer reports more bytes than it was asked for.
  Without the condition on the end of the range the property fails: the loops compare
  the address with \<^verbatim>\<open>a + L\<close>.
\<close>

theorem C5_chunking:
  assumes "get_kernel_task k s = (Inr task, s1)"
  shows
   "(\<forall>n buf' s'. read_kernel k a L buf s = Some (n, buf', s') \<longrightarrow>
       (\<exists>evs. s' = s1\<lparr>calls := calls s1 @ evs\<rparr> \<and>
          (\<forall>c\<in>set evs. \<exists>m. chunk c = Some m \<and> m \<le> MAX_CHUNK_SIZE) \<and>
          sequential task a L evs \<and> buf' = fill buf 0 evs \<and>
          n = sum_list (map moved evs))) \<and>
    (\<forall>n s'. write_kernel k a data L s = Some (n, s') \<longrightarrow>
       (\<exists>evs. s' = s1\<lparr>calls := calls s1 @ evs\<rparr> \<and>
          (\<forall>c\<in>set evs. \<exists>m. chunk c = Some m \<and> m \<le> MAX_CHUNK_SIZE) \<and>
          sequential task a L evs \<and> drawn data 0 evs \<and>
          n = sum_list (map moved evs))) \<and>
    (unat a + unat L < 2 ^ 64 \<longrightarrow>
       ((\<forall>h x n. fst (vm_read_overwrite k h task x n) = KERN_SUCCESS \<and>
                length (snd (vm_read_overwrite k h task x n)) = unat n) \<longrightarrow>
          (\<exists>buf' evs. read_kernel k a L buf s = Some (L, buf', s1\<lparr>calls := calls s1 @ evs\<rparr>) \<and>
             length evs = (unat L + unat MAX_CHUNK_SIZE - 1) div unat MAX_CHUNK_SIZE \<and>
             (\<forall>c\<in>set evs. \<exists>m. chunk c = Some m \<and> m \<le> MAX_CHUNK_SIZE) \<and>
             map request evs = map (\<lambda>(x, n). Some (task, x, n)) (chunks_of_range a L) \<and>
             sum_list (map moved evs) = L)) \<and>
       ((\<forall>h x d n. vm_write k h task x d n = KERN_SUCCESS) \<longrightarrow>
          (\<exists>evs. write_kernel k a data L s = Some (L, s1\<lparr>calls := calls s1 @ evs\<rparr>) \<and>
             length evs = (unat L + unat MAX_CHUNK_SIZE - 1) div unat MAX_CHUNK_SIZE \<and>
             (\<forall>c\<in>set evs. \<exists>m. chunk c = Some m \<and> m \<le> MAX_CHUNK_SIZE) \<and>
             map request evs = map (\<lambda>(x, n). Some (task, x, n)) (chunks_of_range a L) \<and>
             sum_list (map moved evs) = L))) \<and>
    (\<exists>y. write_kernel k a data L s = Some y) \<and>
    ((\<forall>h task x n. length (snd (vm_read_overwrite k h task x n)) \<le> unat n) \<longrightarrow>
       (\<exists>y. read_kernel k a L buf s = Some y))"
proof (intro conjI allI impI)
  show "\<exists>y. write_kernel k a data L s = Some y"
    by (rule write_kernel_returns)
next
  assume "\<forall>h task x n. length (snd (vm_read_overwrite k h task x n)) \<le> unat n"
  then show "\<exists>y. read_kernel k a L buf s = Some y"
    by (rule read_kernel_returns)
next
  fix n buf' s'
  assume "read_kernel k a L buf s = Some (n, buf', s')"
  then show "\<exists>evs. s' = s1\<lparr>calls := calls s1 @ evs\<rparr> \<and>
      (\<forall>c\<in>set evs. \<exists>m. chunk c = Some m \<and> m \<le> MAX_CHUNK_SIZE) \<and>
      sequential task a L evs \<and> buf' = fill buf 0 evs \<and>
      n = sum_list (map moved evs)"
    by (rule read_kernel_chunks [OF assms])
next
  fix n s'
  assume "write_kernel k a data L s = Some (n, s')"
  then show "\<exists>evs. s' = s1\<lparr>calls := calls s1 @ evs\<rparr> \<and>
      (\<forall>c\<in>set evs. \<exists>m. chunk c = Some m \<and> m \<le> MAX_CHUNK_SIZE) \<and>
      sequential task a L evs \<and> drawn data 0 evs \<and>
      n = sum_list (map moved evs)"
    by (rule write_kernel_chunks [OF assms])
next
  assume "unat a + unat L < 2 ^ 64"
    and "\<forall>h x n. fst (vm_read_overwrite k h task x n) = KERN_SUCCESS \<and>
      length (snd (vm_read_overwrite k h task x n)) = unat n"
  then show "\<exists>buf' evs. read_kernel k a L buf s = Some (L, buf', s1\<lparr>calls := calls s1 @ evs\<rparr>) \<and>
      length evs = (unat L + unat MAX_CHUNK_SIZE - 1) div unat MAX_CHUNK_SIZE \<and>
      (\<forall>c\<in>set evs. \<exists>m. chunk c = Some m \<and> m \<le> MAX_CHUNK_SIZE) \<and>
      map request evs = map (\<lambda>(x, n). Some (task, x, n)) (chunks_of_range a L) \<and>
      sum_list (map moved evs) = L"
    by (rule read_kernel_full [OF assms])
next
  assume "unat a + unat L < 2 ^ 64"
    and "\<forall>h x d n. vm_write k h task x d n = KERN_SUCCESS"
  then show "\<exists>evs. write_kernel k a data L s = Some (L, s1\<lparr>calls := calls s1 @ evs\<rparr>) \<and>
      length evs = (unat L + unat MAX_CHUNK_SIZE - 1) div unat MAX_CHUNK_SIZE \<and>
      (\<forall>c\<in>set evs. \<exists>m. chunk c = Some m \<and> m \<le> MAX_CHUNK_SIZE) \<and>
      map request evs = map (\<lambda>(x, n). Some (task, x, n)) (chunks_of_range a L) \<and>
      sum_list (map moved evs) = L"
    by (rule write_kernel_full [OF assms])
qed

theorem C5_chunking_witness:
  "read_kernel demo_kernel 0x1000 0x2001 [] initial_state \<noteq> None \<and>
   map_option (sum_list \<circ> map moved \<circ> drop 1 \<circ> calls \<circ> snd \<circ> snd)
     (read_kernel demo_kernel 0x1000 0x2001 [] initial_state) = Some 0x2001 \<and>
   map_option (sum_list \<circ> map moved \<circ> drop 1 \<circ> calls \<circ> snd)
     (write_kernel demo_kernel 0x1000 (replicate 8193 0) 0x2001 initial_state) = Some 0x2001 \<and>
   map_option fst (read_kernel demo_kernel 0x1000 0x2001 [] initial_state) = Some 0x2001 \<and>
   map_option (map request \<circ> drop 1 \<circ> calls \<circ> snd \<circ> snd)
     (read_kernel demo_kernel 0x1000 0x2001 [] initial_state) =
     Some [Some (0x103, 0x1000, 0xFFF), Some (0x103, 0x1FFF, 0xFFF), Some (0x103, 0x2FFE, 3)] \<and>
   map_option (sequential 0x103 0x1000 0x2001 \<circ> drop 1 \<circ> calls \<circ> snd \<circ> snd)
     (read_kernel demo_kernel 0x1000 0x2001 [] initial_state) = Some True \<and>
   map_option fst (write_kernel demo_kernel 0x1000 (replicate 8193 0) 0x2001 initial_state) =
     Some 0x2001 \<and>
   map_option (map request \<circ> drop 1 \<circ> calls \<circ> snd)
     (write_kernel demo_kernel 0x1000 (replicate 8193 0) 0x2001 initial_state) =
     Some [Some (0x103, 0x1000, 0xFFF), Some (0x103, 0x1FFF, 0xFFF), Some (0x103, 0x2FFE, 3)] \<and>
   map_option (drawn (replicate 8193 0) 0 \<circ> drop 1 \<circ> calls \<circ> snd)
     (write_kernel demo_kernel 0x1000 (replicate 8193 0) 0x2001 initial_state) = Some True"
proof -
  have nowrap: "unat (0x1000 :: vm_address_t) + unat (0x2001 :: vm_size_t) < 2 ^ 64"
    by simp
  have reads: "\<forall>h x n. fst (vm_read_overwrite demo_kernel h 0x103 x n) = KERN_SUCCESS \<and>
      length (snd (vm_read_overwrite demo_kernel h 0x103 x n)) = unat n"
    by (simp add: demo_kernel_def)
  have writes: "\<forall>h x d n. vm_write demo_kernel h 0x103 x d n = KERN_SUCCESS"
    by (simp add: demo_kernel_def)
  have len: "length (calls ready_state) = 1"
    by (simp add: ready_state_def initial_state_def)
  have upto: "[0..<3] = [0, 1, 2 :: nat]"
    by (simp add: numeral_3_eq_3 upt_conv_Cons)
  have cut: "chunks_of_range 0x1000 0x2001 = [(0x1000, 0xFFF), (0x1FFF, 0xFFF), (0x2FFE, 3)]"
    by (simp add: chunks_of_range_def MAX_CHUNK_SIZE_def upto)
  note inst = C5_chunking [OF demo_task, of "0x1000" "0x2001" "[]" "replicate 8193 0"]
  note full = inst [THEN conjunct2, THEN conjunct2, THEN conjunct1, THEN mp, OF nowrap]
  from full [THEN conjunct1, THEN mp, OF reads] obtain rbuf revs where
    rd: "read_kernel demo_kernel 0x1000 0x2001 [] initial_state =
      Some (0x2001, rbuf, ready_state\<lparr>calls := calls ready_state @ revs\<rparr>)"
    and rreq: "map request revs =
      map (\<lambda>(x, n). Some (0x103, x, n)) (chunks_of_range 0x1000 0x2001)"
    by blast
  from full [THEN conjunct2, THEN mp, OF writes] obtain wevs where
    wr: "write_kernel demo_kernel 0x1000 (replicate 8193 0) 0x2001 initial_state =
      Some (0x2001, ready_state\<lparr>calls := calls ready_state @ wevs\<rparr>)"
    and wreq: "map request wevs =
      map (\<lambda>(x, n). Some (0x103, x, n)) (chunks_of_range 0x1000 0x2001)"
    by blast
  have bounded: "\<forall>h task x n. length (snd (vm_read_overwrite demo_kernel h task x n)) \<le> unat n"
    by (simp add: demo_kernel_def)
  from inst [THEN conjunct2, THEN conjunct2, THEN conjunct2, THEN conjunct2, THEN mp, OF bounded]
  have returns: "read_kernel demo_kernel 0x1000 0x2001 [] initial_state \<noteq> None"
    by auto
  from inst [THEN conjunct1, rule_format, OF rd]
  obtain evs where same: "ready_state\<lparr>calls := calls ready_state @ revs\<rparr> =
      ready_state\<lparr>calls := calls ready_state @ evs\<rparr>"
    and rseq': "sequential 0x103 0x1000 0x2001 evs"
    and total: "(0x2001 :: vm_size_t) = sum_list (map moved evs)"
    by blast
  from arg_cong [OF same, of calls] have "revs = evs"
    by simp
  with rseq' total have rseq: "sequential 0x103 0x1000 0x2001 revs"
    and rsum: "sum_list (map moved revs) = 0x2001"
    by simp_all
  from inst [THEN conjunct2, THEN conjunct1, rule_format, OF wr]
  obtain evs where same: "ready_state\<lparr>calls := calls ready_state @ wevs\<rparr> =
      ready_state\<lparr>calls := calls ready_state @ evs\<rparr>"
    and wdrawn': "drawn (replicate 8193 0) 0 evs"
    and total: "(0x2001 :: vm_size_t) = sum_list (map moved evs)"
    by blast
  from arg_cong [OF same, of calls] have "wevs = evs"
    by simp
  with wdrawn' total have wdrawn: "drawn (replicate 8193 0) 0 wevs"
    and wsum: "sum_list (map moved wevs) = 0x2001"
    by simp_all
  from rd wr rreq wreq rseq wdrawn rsum wsum returns show ?thesis
    by (simp add: cut len)
qed

text \<open>
  The last page of the address space, with the task port cached and a kernel that
  would carry out either transfer in full: \<^verbatim>\<open>a + L\<close> wraps to 0, no transfer is issued
  and 0 is returned, where \<^verbatim>\<open>0x1000\<close> bytes make two chunks.
\<close>

theorem C5_wrap_counterexample:
  "get_kernel_task demo_kernel ready_state = (Inr 0x103, ready_state) \<and>
   vm_read_overwrite demo_kernel (calls ready_state) 0x103 0xFFFFFFFFFFFFF000 0xFFF =
     (KERN_SUCCESS, replicate 4095 0xAA) \<and>
   vm_write demo_kernel (calls ready_state) 0x103 0xFFFFFFFFFFFFF000 (replicate 4095 0) 0xFFF =
     KERN_SUCCESS \<and>
   read_kernel demo_kernel 0xFFFFFFFFFFFFF000 0x1000 (replicate 4096 0) ready_state =
     Some (0, replicate 4096 0, ready_state) \<and>
   write_kernel demo_kernel 0xFFFFFFFFFFFFF000 (replicate 4096 0) 0x1000 ready_state =
     Some (0, ready_state) \<and>
   (0 :: vm_size_t) \<noteq> 0x1000 \<and>
   (unat (0x1000 :: vm_size_t) + unat MAX_CHUNK_SIZE - 1) div unat MAX_CHUNK_SIZE = 2"
  by (simp add: read_kernel_def write_kernel_def get_kernel_task_def ready_state_def
      initial_state_def read_loop.simps write_loop.simps MAX_CHUNK_SIZE_def demo_kernel_def)

lemma read_chunks_loop:
  "read_chunks n k task e a r br buf s = Some (a', r', br', buf', s') \<Longrightarrow>
     read_loop k task e a r br buf s = read_loop k task e a' r' br' buf' s'"
proof (induction n arbitrary: a r br buf s)
  case 0
  then show ?case by simp
next
  case (Suc n)
  obtain ret d s1 where rd: "call_vm_read_overwrite k task a (chunk_of r) s = ((ret, d), s1)"
    by (metis surj_pair)
  define c where "c = (of_nat (length d) :: vm_size_t)"
  from Suc.prems rd have lt: "a < e" and go: "ret = KERN_SUCCESS" "c \<noteq> 0"
    and rest: "read_chunks n k task e (a + c) (r - c) (br + c) (store buf (unat br) d) s1 =
      Some (a', r', br', buf', s')"
    by (simp_all add: chunk_of_def [symmetric] Let_def c_def split: if_splits)
  have "read_loop k task e a r br buf s =
      read_loop k task e (a + c) (r - c) (br + c) (store buf (unat br) d) s1"
    by (subst read_loop.simps) (simp add: lt rd go chunk_of_def [symmetric] Let_def c_def [symmetric])
  also have "\<dots> = read_loop k task e a' r' br' buf' s'"
    by (rule Suc.IH [OF rest])
  finally show ?case .
qed

lemma read_chunks_log:
  "read_chunks n k task e a r br buf s = Some (a', r', br', buf', s') \<Longrightarrow>
     \<exists>evs. s' = s\<lparr>calls := calls s @ evs\<rparr> \<and> length evs = n \<and>
           br' = br + sum_list (map moved evs)"
proof (induction n arbitrary: a r br buf s)
  case 0
  then show ?case by simp
next
  case (Suc n)
  obtain ret d s1 where rd: "call_vm_read_overwrite k task a (chunk_of r) s = ((ret, d), s1)"
    by (metis surj_pair)
  define c where "c = (of_nat (length d) :: vm_size_t)"
  from Suc.prems rd have lt: "a < e" and go: "ret = KERN_SUCCESS" "c \<noteq> 0"
    and rest: "read_chunks n k task e (a + c) (r - c) (br + c) (store buf (unat br) d) s1 =
      Some (a', r', br', buf', s')"
    by (simp_all add: chunk_of_def [symmetric] Let_def c_def split: if_splits)
  define ev where "ev = Vm_read_overwrite task a (chunk_of r) ret d"
  have s1: "s1 = s\<lparr>calls := calls s @ [ev]\<rparr>"
    using call_vm_read_overwrite_state [OF rd] by (simp add: ev_def)
  from Suc.IH [OF rest] obtain evs where evs: "s' = s1\<lparr>calls := calls s1 @ evs\<rparr>"
    "length evs = n" "br' = br + c + sum_list (map moved evs)"
    by blast
  have "s' = s\<lparr>calls := calls s @ ev # evs\<rparr>" using evs(1) by (simp add: s1)
  moreover have "length (ev # evs) = Suc n" using evs(2) by simp
  moreover have "br' = br + sum_list (map moved (ev # evs))"
    using evs(3) go(1) by (simp add: ev_def c_def)
  ultimately show ?case by blast
qed

lemma write_chunks_loop:
  "write_chunks n k task e a r bw data s = Some (a', r', bw', s') \<Longrightarrow>
     write_loop k task e a r bw data s = write_loop k task e a' r' bw' data s'"
proof (induction n arbitrary: a r bw s)
  case 0
  then show ?case by simp
next
  case (Suc n)
  define c where "c = chunk_of r"
  obtain ret s1 where wr:
    "call_vm_write k task a (take (unat c) (drop (unat bw) data)) c s = (ret, s1)"
    by (metis surj_pair)
  from Suc.prems wr have lt: "a < e" and go: "ret = KERN_SUCCESS"
    and rest: "write_chunks n k task e (a + c) (r - c) (bw + c) data s1 = Some (a', r', bw', s')"
    by (simp_all add: chunk_of_def [symmetric] Let_def c_def [symmetric] split: if_splits)
  have "write_loop k task e a r bw data s = write_loop k task e (a + c) (r - c) (bw + c) data s1"
    by (subst write_loop.simps)
       (simp add: lt wr go chunk_of_def [symmetric] Let_def c_def [symmetric])
  also have "\<dots> = write_loop k task e a' r' bw' data s'"
    by (rule Suc.IH [OF rest])
  finally show ?case .
qed

lemma write_chunks_log:
  "write_chunks n k task e a r bw data s = Some (a', r', bw', s') \<Longrightarrow>
     \<exists>evs. s' = s\<lparr>calls := calls s @ evs\<rparr> \<and> length evs = n \<and>
           bw' = bw + sum_list (map moved evs)"
proof (induction n arbitrary: a r bw s)
  case 0
  then show ?case by simp
next
  case (Suc n)
  define c where "c = chunk_of r"
  obtain ret s1 where wr:
    "call_vm_write k task a (take (unat c) (drop (unat bw) data)) c s = (ret, s1)"
    by (metis surj_pair)
  from Suc.prems wr have lt: "a < e" and go: "ret = KERN_SUCCESS"
    and rest: "write_chunks n k task e (a + c) (r - c) (bw + c) data s1 = Some (a', r', bw', s')"
    by (simp_all add: chunk_of_def [symmetric] Let_def c_def [symmetric] split: if_splits)
  define ev where "ev = Vm_write task a (take (unat c) (drop (unat bw) data)) c ret"
  have s1: "s1 = s\<lparr>calls := calls s @ [ev]\<rparr>"
    using call_vm_write_state [OF wr] by (simp add: ev_def)
  from Suc.IH [OF rest] obtain evs where evs: "s' = s1\<lparr>calls := calls s1 @ evs\<rparr>"
    "length evs = n" "bw' = bw + c + sum_list (map moved evs)"
    by blast
  have "s' = s\<lparr>calls := calls s @ ev # evs\<rparr>" using evs(1) by (simp add: s1)
  moreover have "length (ev # evs) = Suc n" using evs(2) by simp
  moreover have "bw' = bw + sum_list (map moved (ev # evs))"
    using evs(3) go by (simp add: ev_def)
  ultimately show ?case by blast
qed

lemma read_kernel_stops:
  assumes task: "get_kernel_task k s = (Inr task, s1)"
    and first: "read_chunks n k task (a + L) a L 0 buf s1 = Some (a', r', br', buf', s2)"
    and more: "a' < a + L"
    and kth: "call_vm_read_overwrite k task a'
        (if r' > MAX_CHUNK_SIZE then MAX_CHUNK_SIZE else r') s2 = ((ret, d), s3)"
    and bad: "ret \<noteq> KERN_SUCCESS \<or> (of_nat (length d) :: vm_size_t) = 0"
  shows "read_kernel k a L buf s = Some (br', store buf' (unat br') d, s3) \<and>
    br' = sum_list (map moved (take n (drop (length (calls s1)) (calls s3)))) \<and>
    length (calls s3) = length (calls s1) + Suc n"
proof -
  have "read_kernel k a L buf s = read_loop k task (a + L) a L 0 buf s1"
    using task by (simp add: read_kernel_def)
  also have "\<dots> = read_loop k task (a + L) a' r' br' buf' s2"
    by (rule read_chunks_loop [OF first])
  also have "\<dots> = Some (br', store buf' (unat br') d, s3)"
    using bad by (subst read_loop.simps) (auto simp: more kth Let_def)
  finally have "read_kernel k a L buf s = Some (br', store buf' (unat br') d, s3)" .
  moreover from read_chunks_log [OF first] obtain evs where
    evs: "s2 = s1\<lparr>calls := calls s1 @ evs\<rparr>" "length evs = n" "br' = 0 + sum_list (map moved evs)"
    by blast
  have "calls s3 = calls s1 @ evs @ [Vm_read_overwrite task a'
      (if r' > MAX_CHUNK_SIZE then MAX_CHUNK_SIZE else r') ret d]"
    using call_vm_read_overwrite_state [OF kth] evs(1) by simp
  with evs(2,3) have "br' = sum_list (map moved (take n (drop (length (calls s1)) (calls s3))))"
    "length (calls s3) = length (calls s1) + Suc n"
    by simp_all
  ultimately show ?thesis by simp
qed

lemma write_kernel_stops:
  assumes task: "get_kernel_task k s = (Inr task, s1)"
    and first: "write_chunks n k task (a + L) a L 0 data s1 = Some (a', r', bw', s2)"
    and more: "a' < a + L"
    and kth: "call_vm_write k task a'
        (take (unat (if r' > MAX_CHUNK_SIZE then MAX_CHUNK_SIZE else r')) (drop (unat bw') data))
        (if r' > MAX_CHUNK_SIZE then MAX_CHUNK_SIZE else r') s2 = (ret, s3)"
    and bad: "ret \<noteq> KERN_SUCCESS"
  shows "write_kernel k a data L s = Some (bw', s3) \<and>
    bw' = sum_list (map moved (take n (drop (length (calls s1)) (calls s3)))) \<and>
    length (calls s3) = length (calls s1) + Suc n"
proof -
  have "write_kernel k a data L s = write_loop k task (a + L) a L 0 data s1"
    using task by (simp add: write_kernel_def)
  also have "\<dots> = write_loop k task (a + L) a' r' bw' data s2"
    by (rule write_chunks_loop [OF first])
  also have "\<dots> = Some (bw', s3)"
    using bad by (subst write_loop.simps) (auto simp: more kth Let_def)
  finally have "write_kernel k a data L s = Some (bw', s3)" .
  moreover from write_chunks_log [OF first] obtain evs where
    evs: "s2 = s1\<lparr>calls := calls s1 @ evs\<rparr>" "length evs = n" "bw' = 0 + sum_list (map moved evs)"
    by blast
  have "\<exists>ev. calls s3 = calls s1 @ evs @ [ev]"
    using call_vm_write_state [OF kth] evs(1) by simp
  with evs(2,3) have "bw' = sum_list (map moved (take n (drop (length (calls s1)) (calls s3))))"
    "length (calls s3) = length (calls s1) + Suc n"
    by auto
  ultimately show ?thesis by simp
qed

text \<open>
  C6. \<^verbatim>\<open>read_kernel\<close> and \<^verbatim>\<open>write_kernel\<close> have the task port, and the first \<^verbatim>\<open>n\<close> chunks
  have each moved bytes. If a further chunk is due and its transfer fails (or, for
  \<^verbatim>\<open>read_kernel\<close>, reports that it has read no byte; \<^verbatim>\<open>vm_write\<close> reports no length), the
  function returns at once, whatever remains to be moved: exactly \<^verbatim>\<open>n + 1\<close> transfers
  are logged and the count returned is the sum of the bytes the first \<^verbatim>\<open>n\<close> of them have
  moved. The result is a value, not an error.
\<close>

theorem C6_partial_failure:
  assumes "get_kernel_task k s = (Inr task, s1)"
  shows
   "(read_chunks n k task (a + L) a L 0 buf s1 = Some (a', r', br', buf', s2) \<and>
     a' < a + L \<and>
     call_vm_read_overwrite k task a'
       (if r' > MAX_CHUNK_SIZE then MAX_CHUNK_SIZE else r') s2 = ((ret, d), s3) \<and>
     (ret \<noteq> KERN_SUCCESS \<or> (of_nat (length d) :: vm_size_t) = 0) \<longrightarrow>
       read_kernel k a L buf s = Some (br', store buf' (unat br') d, s3) \<and>
       br' = sum_list (map moved (take n (drop (length (calls s1)) (calls s3)))) \<and>
       length (calls s3) = length (calls s1) + Suc n) \<and>
    (write_chunks n k task (a + L) a L 0 data s1 = Some (wa, wr, bw, ws2) \<and>
     wa < a + L \<and>
     call_vm_write k task wa
       (take (unat (if wr > MAX_CHUNK_SIZE then MAX_CHUNK_SIZE else wr)) (drop (unat bw) data))
       (if wr > MAX_CHUNK_SIZE then MAX_CHUNK_SIZE else wr) ws2 = (wret, ws3) \<and>
     wret \<noteq> KERN_SUCCESS \<longrightarrow>
       write_kernel k a data L s = Some (bw, ws3) \<and>
       bw = sum_list (map moved (take n (drop (length (calls s1)) (calls ws3)))) \<and>
       length (calls ws3) = length (calls s1) + Suc n)"
proof (rule conjI; rule impI; elim conjE)
  assume "read_chunks n k task (a + L) a L 0 buf s1 = Some (a', r', br', buf', s2)"
    and "a' < a + L"
    and "call_vm_read_overwrite k task a'
       (if r' > MAX_CHUNK_SIZE then MAX_CHUNK_SIZE else r') s2 = ((ret, d), s3)"
    and "ret \<noteq> KERN_SUCCESS \<or> (of_nat (length d) :: vm_size_t) = 0"
  then show "read_kernel k a L buf s = Some (br', store buf' (unat br') d, s3) \<and>
       br' = sum_list (map moved (take n (drop (length (calls s1)) (calls s3)))) \<and>
       length (calls s3) = length (calls s1) + Suc n"
    by (rule read_kernel_stops [OF assms])
next
  assume "write_chunks n k task (a + L) a L 0 data s1 = Some (wa, wr, bw, ws2)"
    and "wa < a + L"
    and "call_vm_write k task wa
       (take (unat (if wr > MAX_CHUNK_SIZE then MAX_CHUNK_SIZE else wr)) (drop (unat bw) data))
       (if wr > MAX_CHUNK_SIZE then MAX_CHUNK_SIZE else wr) ws2 = (wret, ws3)"
    and "wret \<noteq> KERN_SUCCESS"
  then show "write_kernel k a data L s = Some (bw, ws3) \<and>
       bw = sum_list (map moved (take n (drop (length (calls s1)) (calls ws3)))) \<and>
       length (calls ws3) = length (calls s1) + Suc n"
    by (rule write_kernel_stops [OF assms])
qed

theorem C6_partial_failure_witness:
  "map_option fst (read_kernel (faulting_kernel 0x2000) 0x1000 0x3000 [] initial_state) =
     Some 0x1FFE \<and>
   map_option fst (write_kernel (faulting_kernel 0x2000) 0x1000 (replicate 12288 0) 0x3000
     initial_state) = Some 0x1FFE"
proof -
  let ?k = "faulting_kernel 0x2000"
  have task: "get_kernel_task ?k initial_state = (Inr 0x103, ready_state)"
    by (simp add: kernel_defs ready_state_def)
  define r where "r = the (read_chunks (Suc (Suc 0)) ?k 0x103 (0x1000 + 0x3000) 0x1000 0x3000 0 []
    ready_state)"
  have r: "read_chunks (Suc (Suc 0)) ?k 0x103 (0x1000 + 0x3000) 0x1000 0x3000 0 [] ready_state =
      Some (0x2FFE, 0x1002, 0x1FFE, fst (snd (snd (snd r))), snd (snd (snd (snd r))))"
    by (simp add: r_def kernel_defs call_defs Let_def)
  define s3 where "s3 = snd (call_vm_read_overwrite ?k 0x103 0x2FFE 0xFFF (snd (snd (snd (snd r)))))"
  have kth: "call_vm_read_overwrite ?k 0x103 0x2FFE
      (if (0x1002 :: vm_size_t) > MAX_CHUNK_SIZE then MAX_CHUNK_SIZE else 0x1002)
      (snd (snd (snd (snd r)))) = ((1, []), s3)"
    by (simp add: s3_def kernel_defs call_defs)
  have more: "(0x2FFE :: vm_address_t) < 0x1000 + 0x3000"
    by simp
  have bad: "(1 :: kern_return_t) \<noteq> KERN_SUCCESS \<or> (of_nat (length ([] :: byte list)) :: vm_size_t) = 0"
    by simp
  define w where "w = the (write_chunks (Suc (Suc 0)) ?k 0x103 (0x1000 + 0x3000) 0x1000 0x3000 0
    (replicate 12288 0) ready_state)"
  have w: "write_chunks (Suc (Suc 0)) ?k 0x103 (0x1000 + 0x3000) 0x1000 0x3000 0
      (replicate 12288 0) ready_state = Some (0x2FFE, 0x1002, 0x1FFE, snd (snd (snd w)))"
    by (simp add: w_def kernel_defs call_defs Let_def)
  define ws3 where "ws3 = snd (call_vm_write ?k 0x103 0x2FFE
      (take (unat (if (0x1002 :: vm_size_t) > MAX_CHUNK_SIZE then MAX_CHUNK_SIZE else 0x1002))
         (drop (unat (0x1FFE :: vm_size_t)) (replicate 12288 0)))
      (if (0x1002 :: vm_size_t) > MAX_CHUNK_SIZE then MAX_CHUNK_SIZE else 0x1002)
      (snd (snd (snd w))))"
  have wkth: "call_vm_write ?k 0x103 0x2FFE
      (take (unat (if (0x1002 :: vm_size_t) > MAX_CHUNK_SIZE then MAX_CHUNK_SIZE else 0x1002))
         (drop (unat (0x1FFE :: vm_size_t)) (replicate 12288 0)))
      (if (0x1002 :: vm_size_t) > MAX_CHUNK_SIZE then MAX_CHUNK_SIZE else 0x1002)
      (snd (snd (snd w))) = (1, ws3)"
    by (simp add: ws3_def kernel_defs call_defs Let_def)
  have wbad: "(1 :: kern_return_t) \<noteq> KERN_SUCCESS"
    by (simp add: KERN_SUCCESS_def)
  note inst = C6_partial_failure [OF task]
  from inst [THEN conjunct1, THEN mp, OF conjI [OF r conjI [OF more conjI [OF kth bad]]]]
    inst [THEN conjunct2, THEN mp, OF conjI [OF w conjI [OF more conjI [OF wkth wbad]]]]
  show ?thesis by simp
qed

text \<open>
  C7. When \<^verbatim>\<open>get_kernel_task\<close> fails, \<^verbatim>\<open>read_kernel\<close> and \<^verbatim>\<open>write_kernel\<close> return \<^verbatim>\<open>-1\<close>,
  which in \<^verbatim>\<open>vm_size_t\<close> is the largest value and is not 0, and touch neither the buffer
  nor the kernel.
\<close>

theorem C7_sentinel:
  assumes "get_kernel_task k s = (Inl ret, s1)"
  shows "read_kernel k a L buf s = Some (- 1, buf, s1) \<and>
         write_kernel k a data L s = Some (- 1, s1) \<and>
         (- 1 :: vm_size_t) = 0xFFFFFFFFFFFFFFFF \<and> (- 1 :: vm_size_t) \<noteq> 0"
  using assms by (simp add: read_kernel_def write_kernel_def)

theorem C7_sentinel_witness:
  "read_kernel no_task_kernel 0x1000 0x10 [] initial_state =
     Some (0xFFFFFFFFFFFFFFFF, [],
       initial_state\<lparr>calls := [Task_for_pid KERN_FAILURE 0, Host_get_special_port KERN_FAILURE 0]\<rparr>) \<and>
   write_kernel no_task_kernel 0x1000 [1, 2] 2 initial_state =
     Some (0xFFFFFFFFFFFFFFFF,
       initial_state\<lparr>calls := [Task_for_pid KERN_FAILURE 0, Host_get_special_port KERN_FAILURE 0]\<rparr>)"
proof -
  have "get_kernel_task no_task_kernel initial_state =
      (Inl KERN_FAILURE,
       initial_state\<lparr>calls := [Task_for_pid KERN_FAILURE 0, Host_get_special_port KERN_FAILURE 0]\<rparr>)"
    by (simp add: kernel_defs)
  from C7_sentinel [OF this] show ?thesis by simp
qed

subsection \<open>The caches\<close>

lemma cached_refl: "cached s s"
  by (simp add: cached_def)

lemma cached_trans: "cached s s1 \<Longrightarrow> cached s1 s2 \<Longrightarrow> cached s s2"
  by (auto simp: cached_def)

lemma get_kernel_task_keeps_cache:
  "get_kernel_task k s = (r, s1) \<Longrightarrow> cached s s1"
  using get_kernel_task_keeps [of k s r s1] by (auto simp: cached_def)

lemma get_kernel_base_cached:
  "get_kernel_base ar k s = Some (b, s1) \<Longrightarrow> cached s s1"
  using get_kernel_base_result(1,2) [of ar k s b s1] by (auto simp: cached_def)

lemma read_kernel_cached:
  assumes "read_kernel k a n buf s = Some y"
  shows "cached s (snd (snd y))"
proof (cases "get_kernel_task k s")
  case (Pair r s1)
  note c1 = get_kernel_task_keeps_cache [OF Pair]
  show ?thesis
  proof (cases r)
    case (Inl ret)
    with assms Pair have "y = (- 1, buf, s1)" by (simp add: read_kernel_def)
    with c1 show ?thesis by simp
  next
    case (Inr task)
    with assms Pair have "read_loop k task (a + n) a n 0 buf s1 = Some y"
      by (simp add: read_kernel_def)
    from read_loop_sum [OF this] obtain evs where "snd (snd y) = s1\<lparr>calls := calls s1 @ evs\<rparr>"
      by blast
    with c1 show ?thesis by (auto simp: cached_def)
  qed
qed

lemma write_kernel_cached:
  assumes "write_kernel k a d n s = Some y"
  shows "cached s (snd y)"
proof (cases "get_kernel_task k s")
  case (Pair r s1)
  note c1 = get_kernel_task_keeps_cache [OF Pair]
  show ?thesis
  proof (cases r)
    case (Inl ret)
    with assms Pair have "y = (- 1, s1)" by (simp add: write_kernel_def)
    with c1 show ?thesis by simp
  next
    case (Inr task)
    with assms Pair have "write_loop k task (a + n) a n 0 d s1 = Some y"
      by (simp add: write_kernel_def)
    from write_loop_sum [OF this] obtain evs where "snd y = s1\<lparr>calls := calls s1 @ evs\<rparr>"
      by blast
    with c1 show ?thesis by (auto simp: cached_def)
  qed
qed

lemma find_bytes_kern_cached:
  assumes "find_bytes_kern k start e bytes s = Some y"
  shows "cached s (snd y)"
proof (cases "malloc k (calls s) (e - start)")
  case None
  with assms have "snd y = s" by (auto simp: find_bytes_kern_def)
  then show ?thesis by (simp add: cached_refl)
next
  case (Some buf)
  with assms obtain n buf1 s1 where rk: "read_kernel k start (e - start) buf s = Some (n, buf1, s1)"
    and y: "snd y = s1"
    by (auto simp: find_bytes_kern_def split: option.splits if_splits)
  from read_kernel_cached [OF rk] y show ?thesis by simp
qed

lemma api_step_cached: "api_step ar k c s = Some s' \<Longrightarrow> cached s s'"
proof (cases c)
  case Get_kernel_task
  assume "api_step ar k c s = Some s'"
  with Get_kernel_task have "get_kernel_task k s = (fst (get_kernel_task k s), s')"
    by (simp add: prod_eq_iff)
  then show ?thesis by (rule get_kernel_task_keeps_cache)
next
  case Get_kernel_base
  assume "api_step ar k c s = Some s'"
  with Get_kernel_base show ?thesis
    using get_kernel_base_cached by auto
next
  case (Read_kernel a n buf)
  assume "api_step ar k c s = Some s'"
  with Read_kernel show ?thesis
    using read_kernel_cached by auto
next
  case (Write_kernel a d n)
  assume "api_step ar k c s = Some s'"
  with Write_kernel show ?thesis
    using write_kernel_cached by auto
next
  case (Find_bytes_kern start e bytes)
  assume "api_step ar k c s = Some s'"
  with Find_bytes_kern show ?thesis
    using find_bytes_kern_cached by auto
qed

lemma run_cached: "run ar k cs s = Some s' \<Longrightarrow> cached s s'"
proof (induction cs arbitrary: s)
  case Nil
  then show ?case by (simp add: cached_refl)
next
  case (Cons c cs)
  then obtain s1 where "api_step ar k c s = Some s1" "run ar k cs s1 = Some s'"
    by (auto split: option.splits)
  then show ?case using Cons.IH api_step_cached cached_trans by blast
qed

lemma demo_base:
  "get_kernel_base demo_arch (header_kernel [0xFFFFFF8000004000]) initial_state =
     Some (0xFFFFFF8000004000, found_state)"
proof -
  let ?k = "header_kernel [0xFFFFFF8000004000]"
  define s2 where "s2 = ready_state\<lparr>addr := 0xC000, calls := calls ready_state @
    [Vm_region_recurse_64 0x103 0 KERN_SUCCESS 0x4000 0x8000 5]\<rparr>"
  define s3 where "s3 = s2\<lparr>addr := 0xFFFFFF8000000000, calls := calls s2 @
    [Vm_region_recurse_64 0x103 0xC000 KERN_SUCCESS 0xFFFFFF8000000000 0x80000000 0]\<rparr>"
  define s5 where "s5 = s3\<lparr>calls := calls s3 @
    [Vm_read_overwrite 0x103 0xFFFFFF8000002000 32 KERN_SUCCESS blank_header]\<rparr>"
  define s6 where "s6 = s5\<lparr>calls := calls s5 @
    [Vm_read_overwrite 0x103 0xFFFFFF8000004000 32 KERN_SUCCESS demo_header]\<rparr>"
  have h1: "\<not> base_initialized initial_state"
    by (simp add: initial_state_def)
  have h2: "get_kernel_task ?k initial_state = (Inr 0x103, ready_state)"
    by (simp add: ready_state_def kernel_defs)
  have h3: "skip_regions (Suc 0) ?k 0x103 (ready_state\<lparr>addr := 0\<rparr>) = Some s2"
    by (simp add: s2_def ready_state_def kernel_defs call_defs)
  have h4: "call_vm_region_recurse_64 ?k 0x103 s2 = ((KERN_SUCCESS, 0x80000000, 0), s3)"
    by (simp add: s3_def s2_def kernel_defs call_defs)
  have h5: "kernel_region 0x80000000 0"
    by (simp add: call_defs)
  have h6: "stack ?k (calls s3) = (blank_header, blank_header)"
    by (simp add: kernel_defs)
  have h8: "call_vm_read_overwrite ?k 0x103 (addr s3 + IMAGE_OFFSET demo_arch)
      (sizeof_mach_hdr_t demo_arch) s3 = ((KERN_SUCCESS, blank_header), s5)"
    by (simp add: s5_def s3_def kernel_defs call_defs demo_arch_def)
  have h9: "call_vm_read_overwrite ?k 0x103 (addr s3 + 2 * IMAGE_OFFSET demo_arch)
      (sizeof_mach_hdr_t demo_arch) s5 = ((KERN_SUCCESS, demo_header), s6)"
    by (simp add: s6_def s5_def s3_def kernel_defs call_defs demo_arch_def)
  have found: "s6\<lparr>addr := 0xFFFFFF8000004000, base_initialized := True\<rparr> = found_state"
    by (simp add: s6_def s5_def s3_def s2_def ready_state_def initial_state_def found_state_def
        KERN_SUCCESS_def)
  have "get_kernel_base demo_arch ?k initial_state =
      header_loop demo_arch ?k 0x103 blank_header blank_header s3"
    by (rule get_kernel_base_search [OF h1 h2 h3 h4 h5 h6])
  also have "\<dots> = Some (0xFFFFFF8000004000,
      s6\<lparr>addr := 0xFFFFFF8000004000, base_initialized := True\<rparr>)"
    by (subst header_loop_both_read [OF h8 h9])
       (simp add: Let_def store_headers header_fields got_kernel_base_def s6_def s5_def s3_def
          demo_arch_def [THEN arg_cong, of IMAGE_OFFSET])
  finally show ?thesis by (simp only: found)
qed

lemma demo_run_task:
  "run demo_arch demo_kernel [Write_kernel 0x1000 [1, 2] 2, Get_kernel_task] ready_state =
     Some (ready_state\<lparr>calls := calls ready_state @ [Vm_write 0x103 0x1000 [1, 2] 2 KERN_SUCCESS]\<rparr>)"
  by (simp add: write_kernel_def write_loop.simps kernel_defs call_defs ready_state_def)

lemma demo_run_base:
  "run demo_arch (header_kernel [0xFFFFFF8000004000])
     [Write_kernel 0x1000 [1, 2] 2, Get_kernel_task, Get_kernel_base] found_state =
     Some (found_state\<lparr>calls := calls found_state @ [Vm_write 0x103 0x1000 [1, 2] 2 KERN_SUCCESS]\<rparr>)"
  by (simp add: write_kernel_def write_loop.simps get_kernel_base_def kernel_defs call_defs
      found_state_def)

text \<open>
  C8. After \<^verbatim>\<open>get_kernel_task\<close> has succeeded once, and after any sequence of calls of the
  five functions that follows, \<^verbatim>\<open>get_kernel_task\<close> returns the same port and leaves the
  state as it is: the log of the calls into the kernel, which is part of the state, does
  not grow. The same holds for \<^verbatim>\<open>get_kernel_base\<close> once it has returned an address other
  than 0.
\<close>

theorem C8_cached:
  "(get_kernel_task k s = (Inr t, s1) \<and> run ar k cs s1 = Some s2 \<longrightarrow>
      get_kernel_task k s2 = (Inr t, s2)) \<and>
   (get_kernel_base ar k s = Some (b, s1) \<and> b \<noteq> 0 \<and> run ar k cs s1 = Some s2 \<longrightarrow>
      get_kernel_base ar k s2 = Some (b, s2))"
proof (intro conjI impI; elim conjE)
  assume first: "get_kernel_task k s = (Inr t, s1)" and later: "run ar k cs s1 = Some s2"
  from get_kernel_task_Inr [OF first] have "task_initialized s1" "kernel_task s1 = t" by simp_all
  with run_cached [OF later] have "task_initialized s2" "kernel_task s2 = t"
    by (simp_all add: cached_def)
  then show "get_kernel_task k s2 = (Inr t, s2)"
    by (simp add: get_kernel_task_def)
next
  assume first: "get_kernel_base ar k s = Some (b, s1)" and found: "b \<noteq> 0"
    and later: "run ar k cs s1 = Some s2"
  from get_kernel_base_result(3) [OF first] found have "base_initialized s1" "addr s1 = b"
    by simp_all
  with run_cached [OF later] have "base_initialized s2" "addr s2 = b"
    by (simp_all add: cached_def)
  then show "get_kernel_base ar k s2 = Some (b, s2)"
    by (simp add: get_kernel_base_def)
qed

theorem C8_cached_witness:
  "get_kernel_task demo_kernel
     (ready_state\<lparr>calls := calls ready_state @ [Vm_write 0x103 0x1000 [1, 2] 2 KERN_SUCCESS]\<rparr>) =
     (Inr 0x103,
      ready_state\<lparr>calls := calls ready_state @ [Vm_write 0x103 0x1000 [1, 2] 2 KERN_SUCCESS]\<rparr>) \<and>
   get_kernel_base demo_arch (header_kernel [0xFFFFFF8000004000])
     (found_state\<lparr>calls := calls found_state @ [Vm_write 0x103 0x1000 [1, 2] 2 KERN_SUCCESS]\<rparr>) =
     Some (0xFFFFFF8000004000,
       found_state\<lparr>calls := calls found_state @ [Vm_write 0x103 0x1000 [1, 2] 2 KERN_SUCCESS]\<rparr>)"
proof -
  have found: "(0xFFFFFF8000004000 :: vm_address_t) \<noteq> 0"
    by simp
  from C8_cached [of demo_kernel initial_state "0x103" ready_state demo_arch
      "[Write_kernel 0x1000 [1, 2] 2, Get_kernel_task]", THEN conjunct1, THEN mp,
      OF conjI [OF demo_task demo_run_task]]
    C8_cached [of "header_kernel [0xFFFFFF8000004000]" initial_state _ _ demo_arch
      "[Write_kernel 0x1000 [1, 2] 2, Get_kernel_task, Get_kernel_base]", THEN conjunct2, THEN mp,
      OF conjI [OF demo_base conjI [OF found demo_run_base]]]
  show ?thesis by (rule conjI)
qed

subsection \<open>The search for a pattern\<close>

lemma first_match_Some:
  "bytes \<noteq> [] \<Longrightarrow> first_match buf bytes = Some i \<Longrightarrow>
     occurs_at buf bytes i \<and> (\<forall>j<i. \<not> occurs_at buf bytes j)"
proof (induction buf arbitrary: i)
  case Nil
  then show ?case by simp
next
  case (Cons b buf)
  show ?case
  proof (cases "take (length bytes) (b # buf) = bytes")
    case True
    with Cons.prems have "i = 0" by simp
    moreover have "length bytes \<le> length (b # buf)"
    proof -
      have "length (take (length bytes) (b # buf)) = length bytes"
        using True by simp
      then show ?thesis by (simp del: take_Suc_Cons)
    qed
    ultimately show ?thesis using True Cons.prems by (simp add: occurs_at_def)
  next
    case False
    with Cons.prems obtain i' where i': "first_match buf bytes = Some i'" "i = Suc i'"
      by auto
    from Cons.IH [OF Cons.prems(1) i'(1)]
    have ih: "occurs_at buf bytes i'" "\<forall>j<i'. \<not> occurs_at buf bytes j" by simp_all
    have "occurs_at (b # buf) bytes i" using ih(1) i'(2) by (simp add: occurs_at_def)
    moreover have "\<not> occurs_at (b # buf) bytes j" if "j < i" for j
    proof (cases j)
      case 0
      then show ?thesis using False by (simp add: occurs_at_def)
    next
      case (Suc j')
      then show ?thesis using ih(2) that i'(2) by (simp add: occurs_at_def)
    qed
    ultimately show ?thesis by blast
  qed
qed

lemma first_match_None:
  "bytes \<noteq> [] \<Longrightarrow> first_match buf bytes = None \<Longrightarrow> \<not> occurs_at buf bytes i"
proof (induction buf arbitrary: i)
  case Nil
  then show ?case by (simp add: occurs_at_def)
next
  case (Cons b buf)
  from Cons.prems have no: "take (length bytes) (b # buf) \<noteq> bytes"
    and rest: "first_match buf bytes = None"
    by (auto split: if_splits)
  show ?case
  proof (cases i)
    case 0
    then show ?thesis using no by (simp add: occurs_at_def)
  next
    case (Suc i')
    then show ?thesis using Cons.IH [OF Cons.prems(1) rest, of i'] by (simp add: occurs_at_def)
  qed
qed

lemma memmem_Some:
  "memmem buf bytes = Some i \<Longrightarrow> occurs_at buf bytes i \<and> (\<forall>j<i. \<not> occurs_at buf bytes j)"
  by (auto simp: memmem_def split: if_splits dest: first_match_Some)

lemma memmem_None:
  assumes "memmem buf bytes = None"
  shows "\<not> occurs_at buf bytes i"
proof (cases "buf = [] \<or> bytes = [] \<or> length buf < length bytes")
  case True
  then show ?thesis by (auto simp: occurs_at_def)
next
  case False
  with assms have "first_match buf bytes = None" "bytes \<noteq> []"
    by (simp_all add: memmem_def)
  then show ?thesis using first_match_None by blast
qed

lemma memmem_first:
  assumes "occurs_at buf bytes i" and "\<forall>j<i. \<not> occurs_at buf bytes j"
  shows "memmem buf bytes = Some i"
proof (cases "memmem buf bytes")
  case None
  then show ?thesis using assms(1) memmem_None by blast
next
  case (Some i')
  from memmem_Some [OF Some] have "occurs_at buf bytes i'" "\<forall>j<i'. \<not> occurs_at buf bytes j"
    by simp_all
  with assms have "i = i'" by (meson linorder_neqE_nat)
  with Some show ?thesis by simp
qed

lemma memmem_absent: "(\<forall>i. \<not> occurs_at buf bytes i) \<Longrightarrow> memmem buf bytes = None"
  using memmem_Some by (cases "memmem buf bytes") blast+

lemma find_bytes_kern_returns:
  assumes "\<forall>h task x n. length (snd (vm_read_overwrite k h task x n)) \<le> unat n"
  shows "\<exists>y. find_bytes_kern k start end_addr bytes s = Some y"
proof (cases "malloc k (calls s) (end_addr - start)")
  case None
  then show ?thesis by (simp add: find_bytes_kern_def)
next
  case (Some buf)
  from read_kernel_returns [OF assms, of start "end_addr - start" buf s]
  obtain n buf1 s1 where "read_kernel k start (end_addr - start) buf s = Some (n, buf1, s1)"
    by (metis surj_pair)
  with Some show ?thesis by (simp add: find_bytes_kern_def split: option.splits)
qed

lemma bytes_read:
  "read_kernel bytes_kernel 0x1000 (0x1008 - 0x1000) (replicate 8 0) initial_state =
     Some (8, [1, 2, 3, 4, 5, 6, 7, 8],
       ready_state\<lparr>calls := calls ready_state @
         [Vm_read_overwrite 0x103 0x1000 8 KERN_SUCCESS [1, 2, 3, 4, 5, 6, 7, 8]]\<rparr>)"
  by (simp add: read_kernel_def read_loop.simps kernel_defs call_defs ready_state_def store_def)

lemma bytes_read_nothing:
  "read_kernel bytes_kernel 0x1000 (0x1000 - 0x1000) [] initial_state = Some (0, [], ready_state)"
  by (simp add: read_kernel_def read_loop.simps kernel_defs call_defs ready_state_def)

text \<open>
  What \<^verbatim>\<open>find_bytes_kern\<close> returns, by the value that \<^verbatim>\<open>read_kernel\<close> returns to it: 0 when
  \<^verbatim>\<open>malloc\<close> gives no buffer, and 0 when \<^verbatim>\<open>read_kernel\<close> returns 0. When \<^verbatim>\<open>read_kernel\<close>
  returns another value, the result is \<^verbatim>\<open>start + i\<close> for the smallest offset \<^verbatim>\<open>i\<close> at which
  the pattern occurs in the buffer, and 0 when the pattern occurs nowhere in it. The
  buffer searched is the whole block of \<^verbatim>\<open>end - start\<close> bytes. The function returns
  whenever no transfer reports more bytes than it was asked for.
\<close>

lemma find_bytes_kern_outcome:
  "(malloc k (calls s) (end_addr - start) = None \<longrightarrow>
      find_bytes_kern k start end_addr bytes s = Some (0, s)) \<and>
   (malloc k (calls s) (end_addr - start) = Some buf \<and>
    read_kernel k start (end_addr - start) buf s = Some (n, buf1, s1) \<longrightarrow>
      (n = 0 \<longrightarrow> find_bytes_kern k start end_addr bytes s = Some (0, s1)) \<and>
      (n \<noteq> 0 \<longrightarrow>
         (\<forall>i. occurs_at (take (unat (end_addr - start)) buf1) bytes i \<and>
              (\<forall>j<i. \<not> occurs_at (take (unat (end_addr - start)) buf1) bytes j) \<longrightarrow>
              find_bytes_kern k start end_addr bytes s = Some (start + of_nat i, s1)) \<and>
         ((\<forall>i. \<not> occurs_at (take (unat (end_addr - start)) buf1) bytes i) \<longrightarrow>
              find_bytes_kern k start end_addr bytes s = Some (0, s1)))) \<and>
   ((\<forall>h task x n. length (snd (vm_read_overwrite k h task x n)) \<le> unat n) \<longrightarrow>
      (\<exists>y. find_bytes_kern k start end_addr bytes s = Some y))"
proof (intro conjI)
  show "(\<forall>h task x n. length (snd (vm_read_overwrite k h task x n)) \<le> unat n) \<longrightarrow>
      (\<exists>y. find_bytes_kern k start end_addr bytes s = Some y)"
    using find_bytes_kern_returns by blast
qed (auto simp: find_bytes_kern_def memmem_first memmem_absent add.commute)

lemma find_bytes_kern_outcome_demo:
  "find_bytes_kern bytes_kernel 0x1000 0x1008 [3, 4] initial_state \<noteq> None \<and>
   find_bytes_kern no_malloc_kernel 0x1000 0x1008 [3, 4] initial_state = Some (0, initial_state) \<and>
   map_option fst (find_bytes_kern bytes_kernel 0x1000 0x1000 [3, 4] initial_state) = Some 0 \<and>
   map_option fst (find_bytes_kern bytes_kernel 0x1000 0x1008 [3, 4] initial_state) = Some 0x1002 \<and>
   map_option fst (find_bytes_kern bytes_kernel 0x1000 0x1008 [9] initial_state) = Some 0"
proof -
  have no_block: "malloc no_malloc_kernel (calls initial_state) (0x1008 - 0x1000) = None"
    by (simp add: kernel_defs)
  have empty_block: "malloc bytes_kernel (calls initial_state) (0x1000 - 0x1000) = Some []"
    by (simp add: kernel_defs)
  have block: "malloc bytes_kernel (calls initial_state) (0x1008 - 0x1000) = Some (replicate 8 0)"
    by (simp add: kernel_defs)
  have "memmem (take (unat (0x1008 - 0x1000 :: vm_address_t)) [1, 2, 3, 4, 5, 6, 7, 8]) [3, 4] = Some 2"
    by (simp add: memmem_def)
  from memmem_Some [OF this]
  have there: "occurs_at (take (unat (0x1008 - 0x1000 :: vm_address_t)) [1, 2, 3, 4, 5, 6, 7, 8]) [3, 4] 2 \<and>
      (\<forall>j<2. \<not> occurs_at (take (unat (0x1008 - 0x1000 :: vm_address_t)) [1, 2, 3, 4, 5, 6, 7, 8]) [3, 4] j)" .
  have "memmem (take (unat (0x1008 - 0x1000 :: vm_address_t)) [1, 2, 3, 4, 5, 6, 7, 8]) [9] = None"
    by (simp add: memmem_def)
  then have absent:
    "\<forall>i. \<not> occurs_at (take (unat (0x1008 - 0x1000 :: vm_address_t)) [1, 2, 3, 4, 5, 6, 7, 8]) [9] i"
    using memmem_None by blast
  have eight: "(8 :: vm_size_t) \<noteq> 0"
    by simp
  from find_bytes_kern_outcome [of no_malloc_kernel initial_state "0x1008" "0x1000" "[3, 4]", THEN conjunct1, THEN mp,
      OF no_block]
  have one: "find_bytes_kern no_malloc_kernel 0x1000 0x1008 [3, 4] initial_state =
      Some (0, initial_state)" .
  from find_bytes_kern_outcome [of bytes_kernel initial_state "0x1000" "0x1000" "[3, 4]", THEN conjunct2, THEN conjunct1, THEN mp,
      OF conjI [OF empty_block bytes_read_nothing], THEN conjunct1, THEN mp, OF refl]
  have two: "find_bytes_kern bytes_kernel 0x1000 0x1000 [3, 4] initial_state = Some (0, ready_state)" .
  from find_bytes_kern_outcome [of bytes_kernel initial_state "0x1008" "0x1000" "[3, 4]", THEN conjunct2, THEN conjunct1, THEN mp,
      OF conjI [OF block bytes_read], THEN conjunct2, THEN mp, OF eight, THEN conjunct1,
      THEN spec, THEN mp, OF there]
  have three: "map_option fst (find_bytes_kern bytes_kernel 0x1000 0x1008 [3, 4] initial_state) =
      Some 0x1002"
    by simp
  from find_bytes_kern_outcome [of bytes_kernel initial_state "0x1008" "0x1000" "[9]", THEN conjunct2, THEN conjunct1, THEN mp,
      OF conjI [OF block bytes_read], THEN conjunct2, THEN mp, OF eight, THEN conjunct2,
      THEN mp, OF absent]
  have four: "map_option fst (find_bytes_kern bytes_kernel 0x1000 0x1008 [9] initial_state) = Some 0"
    by simp
  have bounded: "\<forall>h task x n. length (snd (vm_read_overwrite bytes_kernel h task x n)) \<le> unat n"
    by (simp add: kernel_defs)
  from find_bytes_kern_outcome [of bytes_kernel initial_state "0x1008" "0x1000" "[3, 4]",
      THEN conjunct2, THEN conjunct2, THEN mp, OF bounded]
  have zero: "find_bytes_kern bytes_kernel 0x1000 0x1008 [3, 4] initial_state \<noteq> None"
    by auto
  from zero one two three four show ?thesis by simp
qed

text \<open>
  C9. The test of \<^verbatim>\<open>find_bytes_kern\<close> on what \<^verbatim>\<open>read_kernel\<close> returns lets a read that has
  moved no byte through to the search. On the kernel that refuses the task port
  \<^verbatim>\<open>read_kernel\<close> issues no transfer and leaves the block as \<^verbatim>\<open>malloc\<close> has handed it out,
  with the bytes 7, 1, 2, 3: the calls logged are the two attempts to get the port, and
  they have moved nothing. \<^verbatim>\<open>find_bytes_kern\<close> for the pattern 1, 2 in the four bytes from
  \<^verbatim>\<open>0x1000\<close> on nevertheless returns \<^verbatim>\<open>0x1001\<close>, not 0.
\<close>

theorem C9_unread_block_searched:
  "read_kernel no_task_kernel 0x1000 (0x1004 - 0x1000) [7, 1, 2, 3] initial_state =
     Some (0xFFFFFFFFFFFFFFFF, [7, 1, 2, 3],
       initial_state\<lparr>calls := [Task_for_pid KERN_FAILURE 0, Host_get_special_port KERN_FAILURE 0]\<rparr>) \<and>
   sum_list (map moved [Task_for_pid KERN_FAILURE 0, Host_get_special_port KERN_FAILURE 0]) = 0 \<and>
   find_bytes_kern no_task_kernel 0x1000 0x1004 [1, 2] initial_state =
     Some (0x1001,
       initial_state\<lparr>calls := [Task_for_pid KERN_FAILURE 0, Host_get_special_port KERN_FAILURE 0]\<rparr>) \<and>
   (0x1001 :: vm_address_t) \<noteq> 0"
  by (simp add: find_bytes_kern_def read_kernel_def memmem_def kernel_defs)

text \<open>
  C10. When \<^verbatim>\<open>get_kernel_task\<close> fails, \<^verbatim>\<open>read_kernel\<close> returns \<^verbatim>\<open>-1\<close>, which is not 0, so
  \<^verbatim>\<open>find_bytes_kern\<close> does not take the path of a read of nothing: it searches the block
  as \<^verbatim>\<open>malloc\<close> has handed it out, which no read has filled, and returns \<^verbatim>\<open>start + i\<close> when
  the pattern first occurs at offset \<^verbatim>\<open>i\<close> of these bytes.
\<close>

theorem C10_sentinel_search:
  assumes "get_kernel_task k s = (Inl ret, s1)"
    and "malloc k (calls s) (end_addr - start) = Some buf"
  shows "read_kernel k start (end_addr - start) buf s = Some (- 1, buf, s1) \<and>
    (- 1 :: vm_size_t) \<noteq> 0 \<and>
    find_bytes_kern k start end_addr bytes s =
      (case memmem (take (unat (end_addr - start)) buf) bytes of
         Some off \<Rightarrow> Some (of_nat off + start, s1)
       | None \<Rightarrow> Some (0, s1)) \<and>
    (\<forall>i. occurs_at (take (unat (end_addr - start)) buf) bytes i \<and>
         (\<forall>j<i. \<not> occurs_at (take (unat (end_addr - start)) buf) bytes j) \<longrightarrow>
         find_bytes_kern k start end_addr bytes s = Some (start + of_nat i, s1))"
  using assms
  by (auto simp: find_bytes_kern_def read_kernel_def memmem_first add.commute)

theorem C10_sentinel_search_witness:
  "map_option fst (read_kernel no_task_kernel 0x1000 (0x1004 - 0x1000) [7, 1, 2, 3] initial_state) =
     Some 0xFFFFFFFFFFFFFFFF \<and>
   map_option fst (find_bytes_kern no_task_kernel 0x1000 0x1004 [1, 2] initial_state) = Some 0x1001"
proof -
  have task: "get_kernel_task no_task_kernel initial_state =
      (Inl KERN_FAILURE,
       initial_state\<lparr>calls := [Task_for_pid KERN_FAILURE 0, Host_get_special_port KERN_FAILURE 0]\<rparr>)"
    by (simp add: kernel_defs)
  have block: "malloc no_task_kernel (calls initial_state) (0x1004 - 0x1000) = Some [7, 1, 2, 3]"
    by (simp add: kernel_defs)
  have "memmem (take (unat (0x1004 - 0x1000 :: vm_address_t)) [7, 1, 2, 3]) [1, 2] = Some 1"
    by (simp add: memmem_def)
  with C10_sentinel_search [OF task block, of "[1, 2]"] show ?thesis
    by simp
qed

end
